theory Spec2Isabelle
  imports Complex_Main "HOL-Library.Char_ord" "HOL-Library.List_Lexorder" "HOL-Library.Multiset"
begin

section \<open>Values, exceptions and dictionaries\<close>

text \<open>
  The torrents handled by \<^verbatim>\<open>torrent_list.py\<close> are the JSON objects returned by the
  RPC layer. A JSON value is modelled by \<open>pyval\<close>: numbers are exact rationals (Python's
  \<^verbatim>\<open>int\<close> and finite \<^verbatim>\<open>float\<close>; \<^verbatim>\<open>True\<close> and \<^verbatim>\<open>False\<close> are the numbers 1 and 0, as they
  compare and hash in Python), strings are byte lists in UTF-8 (whose lexicographic order is
  the code point order Python uses). \<open>PNone\<close> is Python's \<^verbatim>\<open>None\<close>.
\<close>

datatype pyval =
    PNone
  | PNum rat
  | PStr string
  | PList "pyval list"
  | PDict "(string \<times> pyval) list"

datatype exn = KeyError | TypeError | IndexError | StopIteration | RPCError | OSError

type_synonym torrent = "string \<rightharpoonup> pyval"

text \<open>\<^verbatim>\<open>d[k]\<close> on a dict: raises \<^verbatim>\<open>KeyError\<close> when the key is absent.\<close>

definition getitem :: "('k \<rightharpoonup> 'v) \<Rightarrow> 'k \<Rightarrow> exn + 'v" where
  "getitem d k = (case d k of None \<Rightarrow> Inl KeyError | Some v \<Rightarrow> Inr v)"

text \<open>Lists and dicts are unhashable: using one as a dict key raises \<^verbatim>\<open>TypeError\<close>.\<close>

fun hashable :: "pyval \<Rightarrow> bool" where
  "hashable (PList _) = False"
| "hashable (PDict _) = False"
| "hashable _ = True"

text \<open>
  A Python \<^verbatim>\<open>dict\<close> keeps its keys in insertion order; storing under a key that is already
  present replaces the value and leaves the key where it is. It is modelled as an
  association list with distinct keys.
\<close>

fun dict_set :: "'k \<Rightarrow> 'v \<Rightarrow> ('k \<times> 'v) list \<Rightarrow> ('k \<times> 'v) list" where
  "dict_set k v [] = [(k, v)]"
| "dict_set k v (p # ps) = (if fst p = k then (fst p, v) # ps else p # dict_set k v ps)"

section \<open>\<^verbatim>\<open>list.sort(key=..., reverse=...)\<close>\<close>

text \<open>
  Python's \<^verbatim>\<open><\<close> on two values: numbers with numbers, strings with strings; any other
  pair raises \<^verbatim>\<open>TypeError\<close>. (Two lists can be compared in Python when their elements
  can; list-valued sort keys are outside this model and reported as \<^verbatim>\<open>TypeError\<close>.)
\<close>

fun py_lt :: "pyval \<Rightarrow> pyval \<Rightarrow> exn + bool" where
  "py_lt (PNum a) (PNum b) = Inr (a < b)"
| "py_lt (PStr a) (PStr b) = Inr (a < b)"
| "py_lt _ _ = Inl TypeError"

definition key_lt :: "pyval \<Rightarrow> pyval \<Rightarrow> bool" where
  "key_lt a b = (py_lt a b = Inr True)"

fun is_num :: "pyval \<Rightarrow> bool" where
  "is_num (PNum _) = True"
| "is_num _ = False"

fun is_str :: "pyval \<Rightarrow> bool" where
  "is_str (PStr _) = True"
| "is_str _ = False"

text \<open>
  A sort of two or more keys compares every key with some other key, directly or through
  a chain of comparisons, so it succeeds exactly when all keys are numbers or all keys are
  strings. A list of at most one element is sorted without any comparison.
\<close>

definition comparable_keys :: "pyval list \<Rightarrow> bool" where
  "comparable_keys ks = (length ks \<le> 1 \<or> list_all is_num ks \<or> list_all is_str ks)"

text \<open>The key function is called on every element before anything is moved.\<close>

fun map_exn :: "('a \<Rightarrow> exn + 'b) \<Rightarrow> 'a list \<Rightarrow> exn + 'b list" where
  "map_exn f [] = Inr []"
| "map_exn f (x # xs) =
     (case f x of Inl e \<Rightarrow> Inl e
      | Inr y \<Rightarrow> (case map_exn f xs of Inl e \<Rightarrow> Inl e | Inr ys \<Rightarrow> Inr (y # ys)))"

text \<open>
  The sort is stable. Its result is the one of stable insertion on the (key, element)
  pairs: an element goes behind the keys strictly smaller than its own and in front of
  every other one.
\<close>

fun insert_pair :: "(pyval \<times> 'a) \<Rightarrow> (pyval \<times> 'a) list \<Rightarrow> (pyval \<times> 'a) list" where
  "insert_pair p [] = [p]"
| "insert_pair p (q # qs) =
     (if key_lt (fst q) (fst p) then q # insert_pair p qs else p # q # qs)"

definition stable_sort :: "(pyval \<times> 'a) list \<Rightarrow> (pyval \<times> 'a) list" where
  "stable_sort ps = foldr insert_pair ps []"

text \<open>
  With \<^verbatim>\<open>reverse=True\<close> the list is reversed, sorted and reversed again, so that equal
  keys still keep their original order.
\<close>

definition sort_pairs :: "bool \<Rightarrow> (pyval \<times> 'a) list \<Rightarrow> (pyval \<times> 'a) list" where
  "sort_pairs reverse ps = (if reverse then rev (stable_sort (rev ps)) else stable_sort ps)"

definition list_sort :: "('a \<Rightarrow> exn + pyval) \<Rightarrow> bool \<Rightarrow> 'a list \<Rightarrow> exn + 'a list" where
  "list_sort keyf reverse xs =
     (case map_exn keyf xs of
        Inl e \<Rightarrow> Inl e
      | Inr ks \<Rightarrow>
          if \<not> comparable_keys ks then Inl TypeError
          else Inr (map snd (sort_pairs reverse (zip ks xs))))"

section \<open>\<^verbatim>\<open>TorrentListWalker\<close>\<close>

text \<open>
  The walker's state. \<open>entries\<close> maps an id to the torrent and its widget; the widget type
  \<open>'w\<close> and the widget constructor \<^verbatim>\<open>TorrentEntry(i, parent=self.parent)\<close> belong to the
  rendering layer (urwid) and are a parameter \<open>mk\<close> of the model: a function that either
  raises or returns a widget. \<open>focus\<close> is an id or \<open>PNone\<close>.
\<close>

record 'w walker =
  entries :: "(pyval \<times> torrent \<times> 'w) list"
  order :: "pyval list"
  sorts :: "(string \<times> bool) list"
  focus :: pyval

definition walker_init :: "'w walker" where
  "walker_init = \<lparr>entries = [], order = [], sorts = [(''name'', False)], focus = PNone\<rparr>"

text \<open>The properties \<^verbatim>\<open>sort_key\<close> and \<^verbatim>\<open>sort_reversed\<close> read \<^verbatim>\<open>self.sorts[-1]\<close>.\<close>

definition sort_key_prop :: "'w walker \<Rightarrow> exn + string" where
  "sort_key_prop s = (if sorts s = [] then Inl IndexError else Inr (fst (last (sorts s))))"

definition sort_reversed :: "'w walker \<Rightarrow> exn + bool" where
  "sort_reversed s = (if sorts s = [] then Inl IndexError else Inr (snd (last (sorts s))))"

text \<open>The sort key of an id: \<^verbatim>\<open>self.entries[x][0][key]\<close>.\<close>

definition entry_field :: "(pyval \<times> torrent \<times> 'w) list \<Rightarrow> string \<Rightarrow> pyval \<Rightarrow> exn + pyval" where
  "entry_field es key x =
     (case map_of es x of None \<Rightarrow> Inl KeyError | Some (te, w) \<Rightarrow> getitem te key)"

fun do_sort_loop ::
  "(string \<times> bool) list \<Rightarrow> (pyval \<times> torrent \<times> 'w) list \<Rightarrow> pyval list \<Rightarrow> exn + pyval list" where
  "do_sort_loop [] es ord = Inr ord"
| "do_sort_loop ((key, rv) # rest) es ord =
     (case list_sort (entry_field es key) rv ord of
        Inl e \<Rightarrow> Inl e
      | Inr ord' \<Rightarrow> do_sort_loop rest es ord')"

definition do_sort :: "'w walker \<Rightarrow> exn + 'w walker" where
  "do_sort s =
     (case do_sort_loop (sorts s) (entries s) (order s) of
        Inl e \<Rightarrow> Inl e
      | Inr ord \<Rightarrow> Inr (s\<lparr>order := ord\<rparr>))"

text \<open>
  The dict comprehension of \<^verbatim>\<open>set_entries\<close>: for each torrent of the list the key
  \<^verbatim>\<open>i['id']\<close>, then the widget, then the store into the dict.
\<close>

fun build_entries ::
  "(torrent \<Rightarrow> exn + 'w) \<Rightarrow> torrent list \<Rightarrow> (pyval \<times> torrent \<times> 'w) list
     \<Rightarrow> exn + (pyval \<times> torrent \<times> 'w) list" where
  "build_entries mk [] d = Inr d"
| "build_entries mk (i # rest) d =
     (case getitem i ''id'' of
        Inl e \<Rightarrow> Inl e
      | Inr k \<Rightarrow>
          (case mk i of
             Inl e \<Rightarrow> Inl e
           | Inr w \<Rightarrow>
               if hashable k then build_entries mk rest (dict_set k (i, w) d)
               else Inl TypeError))"

definition set_entries :: "(torrent \<Rightarrow> exn + 'w) \<Rightarrow> torrent list \<Rightarrow> 'w walker \<Rightarrow> exn + 'w walker" where
  "set_entries mk tlist s =
     (case build_entries mk tlist [] of
        Inl e \<Rightarrow> Inl e
      | Inr es \<Rightarrow>
          (case do_sort (s\<lparr>entries := es, order := map fst es\<rparr>) of
             Inl e \<Rightarrow> Inl e
           | Inr s1 \<Rightarrow>
               Inr (if length (order s1) = 0 then s1\<lparr>focus := PNone\<rparr>
                    else if focus s1 \<notin> set (order s1) then s1\<lparr>focus := hd (order s1)\<rparr>
                    else s1)))"

text \<open>\<^verbatim>\<open>while len(self.sorts) > 2: self.sorts.pop(0)\<close>\<close>

function pop_excess :: "'a list \<Rightarrow> 'a list" where
  "pop_excess xs = (if length xs > 2 then pop_excess (tl xs) else xs)"
  by pat_completeness auto
termination
  by (relation "measure length") auto

declare pop_excess.simps [simp del]

definition set_sort :: "string option \<Rightarrow> bool option \<Rightarrow> 'w walker \<Rightarrow> exn + 'w walker" where
  "set_sort key rev_opt s =
     (case (case key of None \<Rightarrow> sort_key_prop s | Some k \<Rightarrow> Inr k) of
        Inl e \<Rightarrow> Inl e
      | Inr k \<Rightarrow>
          (case (case rev_opt of None \<Rightarrow> sort_reversed s | Some r \<Rightarrow> Inr r) of
             Inl e \<Rightarrow> Inl e
           | Inr r \<Rightarrow> do_sort (s\<lparr>sorts := pop_excess (sorts s @ [(k, r)])\<rparr>)))"


text \<open>\<^verbatim>\<open>set_focus\<close> raises \<^verbatim>\<open>IndexError\<close> for a position that is not in \<^verbatim>\<open>self.order\<close>.\<close>

definition set_focus :: "pyval \<Rightarrow> 'w walker \<Rightarrow> exn + 'w walker" where
  "set_focus position s =
     (if position \<notin> set (order s) then Inl IndexError else Inr (s\<lparr>focus := position\<rparr>))"

subsection \<open>Vocabulary of the properties\<close>

text \<open>The identifiers of a raw list, in list order.\<close>

definition ids_of :: "torrent list \<Rightarrow> pyval list" where
  "ids_of tlist = concat (map (\<lambda>t. case t ''id'' of None \<Rightarrow> [] | Some k \<Rightarrow> [k]) tlist)"

text \<open>
  \<open>order\<close> is a permutation of the keys of \<open>entries\<close>: no identifier twice, and the same
  identifiers on both sides.
\<close>

definition order_is_permutation :: "'w walker \<Rightarrow> bool" where
  "order_is_permutation s =
     (distinct (order s) \<and> distinct (map fst (entries s)) \<and> set (order s) = set (map fst (entries s)))"

text \<open>
  A raw list is well formed for a sort history when every torrent has a hashable \<^verbatim>\<open>id\<close>, its
  widget can be built, and every field named in the history is present in every torrent
  with values that are all numbers or all strings.
\<close>

definition field_is :: "(pyval \<Rightarrow> bool) \<Rightarrow> string \<Rightarrow> torrent \<Rightarrow> bool" where
  "field_is P key t = (case t key of None \<Rightarrow> False | Some v \<Rightarrow> P v)"

definition sortable_by :: "string \<Rightarrow> torrent list \<Rightarrow> bool" where
  "sortable_by key ts = (list_all (field_is is_num key) ts \<or> list_all (field_is is_str key) ts)"

definition well_formed :: "(torrent \<Rightarrow> exn + 'w) \<Rightarrow> (string \<times> bool) list \<Rightarrow> torrent list \<Rightarrow> bool" where
  "well_formed mk srts tlist =
     (list_all (\<lambda>t. field_is hashable ''id'' t \<and> \<not> isl (mk t)) tlist \<and>
      list_all (\<lambda>(key, rv). sortable_by key tlist) srts)"

text \<open>
  The torrents a walker holds can be sorted by a key, and by its sort history, which is
  not empty.
\<close>

definition holds_sortable :: "'w walker \<Rightarrow> string \<Rightarrow> bool" where
  "holds_sortable s key = sortable_by key (map (fst \<circ> snd) (entries s))"

definition history_sortable :: "'w walker \<Rightarrow> bool" where
  "history_sortable s = (sorts s \<noteq> [] \<and> list_all (\<lambda>(key, rv). holds_sortable s key) (sorts s))"

text \<open>The key a key function gives an element (\<open>PNone\<close> when it raises).\<close>

definition key_of :: "('a \<Rightarrow> exn + pyval) \<Rightarrow> 'a \<Rightarrow> pyval" where
  "key_of kf x = (case kf x of Inl e \<Rightarrow> PNone | Inr v \<Rightarrow> v)"

text \<open>The value a stored torrent has in a field (\<open>PNone\<close> when there is none).\<close>

definition field_of :: "(pyval \<times> torrent \<times> 'w) list \<Rightarrow> string \<Rightarrow> pyval \<Rightarrow> pyval" where
  "field_of es key x = (case entry_field es key x of Inl e \<Rightarrow> PNone | Inr v \<Rightarrow> v)"

text \<open>
  \<open>in_order reverse a b\<close>: a key \<open>a\<close> may stand in front of a key \<open>b\<close>, ascending or, when
  \<open>reverse\<close> is set, descending. \<open>ranks_equal a b\<close>: neither key is smaller than the other.
\<close>

definition in_order :: "bool \<Rightarrow> pyval \<Rightarrow> pyval \<Rightarrow> bool" where
  "in_order reverse a b = (if reverse then \<not> key_lt a b else \<not> key_lt b a)"

definition ranks_equal :: "pyval \<Rightarrow> pyval \<Rightarrow> bool" where
  "ranks_equal a b = (\<not> key_lt a b \<and> \<not> key_lt b a)"

definition uniform :: "pyval set \<Rightarrow> bool" where
  "uniform K = ((\<forall>k \<in> K. is_num k) \<or> (\<forall>k \<in> K. is_str k))"

section \<open>The bridge: \<^verbatim>\<open>call_async_function\<close> and \<^verbatim>\<open>handle_callbacks\<close>\<close>

text \<open>
  A work item is the pair \<^verbatim>\<open>(func, callback)\<close>. \<open>func\<close> is what awaiting \<^verbatim>\<open>func()\<close> gives, a
  value or the exception it raises; \<open>cb\<close> is the continuation, which acts on the state \<open>'u\<close>
  of the user interface. A continuation returns with the new state, or it raises and
  leaves the state as far as it has changed it (\<^verbatim>\<open>set_data\<close> stores \<^verbatim>\<open>torrent_info\<close> before
  it builds the widgets that can raise).
\<close>

record ('r, 'u) work =
  func :: "exn + 'r"
  cb :: "'r \<Rightarrow> 'u \<Rightarrow> (exn \<times> 'u) + 'u"

text \<open>
  The events of a run, kept for the statement of the properties: the producer of the
  \<open>n\<close>-th submitted item was started, the continuation of the \<open>n\<close>-th submitted item was
  called.
\<close>

datatype event = Started nat | Called nat

text \<open>
  \<open>chan\<close> is the buffer of the memory channel (opened with an infinite bound), each item
  with the number of its submission; \<open>sent\<close> counts the submissions; \<open>running\<close> is the item
  whose coroutine the drain task is awaiting; \<open>raised\<close> is the exception that left
  \<^verbatim>\<open>handle_callbacks\<close>, if any.
\<close>

record ('r, 'u) bridge =
  chan :: "(nat \<times> ('r, 'u) work) list"
  sent :: nat
  running :: "(nat \<times> ('r, 'u) work) option"
  ui :: 'u
  raised :: "exn option"
  trace :: "event list"

definition bridge_init :: "'u \<Rightarrow> ('r, 'u) bridge" where
  "bridge_init u = \<lparr>chan = [], sent = 0, running = None, ui = u, raised = None, trace = []\<rparr>"

text \<open>\<^verbatim>\<open>self.callback_send.send_nowait((func, callback))\<close>: the buffer has no bound.\<close>

definition call_async_function :: "('r, 'u) work \<Rightarrow> ('r, 'u) bridge \<Rightarrow> ('r, 'u) bridge" where
  "call_async_function w b = b\<lparr>chan := chan b @ [(sent b, w)], sent := Suc (sent b)\<rparr>"

text \<open>
  The loop of \<^verbatim>\<open>handle_callbacks\<close> in two steps. \<open>receive\<close>: the \<^verbatim>\<open>async for\<close> takes the next
  item of the channel and the task awaits \<^verbatim>\<open>func()\<close>; nothing happens while an item is
  being awaited, while the channel is empty, or after an exception has left the task.
  \<open>resume\<close>: the awaited coroutine is over; its exception leaves the task, or its value is
  passed to the continuation, whose exception leaves the task as well, with the state of
  the user interface as the continuation has left it.
\<close>

definition receive :: "('r, 'u) bridge \<Rightarrow> ('r, 'u) bridge" where
  "receive b =
     (if raised b \<noteq> None \<or> running b \<noteq> None then b
      else case chan b of
             [] \<Rightarrow> b
           | (n, w) # rest \<Rightarrow>
               b\<lparr>chan := rest, running := Some (n, w), trace := trace b @ [Started n]\<rparr>)"

definition resume :: "('r, 'u) bridge \<Rightarrow> ('r, 'u) bridge" where
  "resume b =
     (if raised b \<noteq> None then b
      else case running b of
             None \<Rightarrow> b
           | Some (n, w) \<Rightarrow>
               (case func w of
                  Inl e \<Rightarrow> b\<lparr>running := None, raised := Some e\<rparr>
                | Inr rv \<Rightarrow>
                    (case cb w rv (ui b) of
                       Inl (e, u) \<Rightarrow>
                         b\<lparr>running := None, ui := u, raised := Some e,
                           trace := trace b @ [Called n]\<rparr>
                     | Inr u \<Rightarrow>
                         b\<lparr>running := None, ui := u, trace := trace b @ [Called n]\<rparr>)))"

text \<open>
  What the scheduler does next: a callback of the user interface submits an item, the
  drain task receives, or the coroutine it awaits finishes. A run is any sequence of
  these; how long a producer takes is the number of steps between its \<open>Receive\<close> and its
  \<open>Resume\<close>.
\<close>

datatype ('r, 'u) action = Submit "('r, 'u) work" | Receive | Resume

fun bridge_step :: "('r, 'u) bridge \<Rightarrow> ('r, 'u) action \<Rightarrow> ('r, 'u) bridge" where
  "bridge_step b (Submit w) = call_async_function w b"
| "bridge_step b Receive = receive b"
| "bridge_step b Resume = resume b"

definition run :: "('r, 'u) action list \<Rightarrow> ('r, 'u) bridge \<Rightarrow> ('r, 'u) bridge" where
  "run acts b = foldl bridge_step b acts"

text \<open>The continuations called, in the order of the calls.\<close>

fun called :: "event list \<Rightarrow> nat list" where
  "called [] = []"
| "called (Called n # evs) = n # called evs"
| "called (Started n # evs) = called evs"

text \<open>
  A trace is serial when every producer that was started is followed by the call of its
  own continuation before any other producer is started.
\<close>

fun serial :: "event list \<Rightarrow> bool" where
  "serial [] = True"
| "serial [Started n] = True"
| "serial (Started n # Called m # evs) = (n = m \<and> serial evs)"
| "serial _ = False"

text \<open>
  The submissions that are still to be served, in order: the item being awaited and the
  items in the channel.
\<close>

definition pending :: "('r, 'u) bridge \<Rightarrow> nat list" where
  "pending b = (case running b of None \<Rightarrow> [] | Some (n, w) \<Rightarrow> [n]) @ map fst (chan b)"

definition pending_work :: "('r, 'u) bridge \<Rightarrow> ('r, 'u) work list" where
  "pending_work b = (case running b of None \<Rightarrow> [] | Some (n, w) \<Rightarrow> [w]) @ map snd (chan b)"

text \<open>The producer that a serial trace has started and not yet followed by a call.\<close>

fun open_start :: "event list \<Rightarrow> nat option" where
  "open_start [] = None"
| "open_start [Started n] = Some n"
| "open_start (Started n # Called m # evs) = open_start evs"
| "open_start _ = None"

text \<open>
  The invariant of every run: the continuations called, an item whose failure ended the
  task (at most one, and only after an exception), and the pending items are together the
  submissions in their order; the trace is serial, and its open producer is the item
  being awaited.
\<close>

definition fifo_invariant :: "('r, 'u) bridge \<Rightarrow> bool" where
  "fifo_invariant b =
     ((\<exists>sk. called (trace b) @ sk @ pending b = [0..<sent b] \<and> (raised b = None \<longrightarrow> sk = [])) \<and>
      serial (trace b) \<and>
      (raised b = None \<longrightarrow> open_start (trace b) = map_option fst (running b)) \<and>
      (raised b \<noteq> None \<longrightarrow> running b = None))"

text \<open>An item that cannot fail: its producer returns and its continuation never raises.\<close>

definition never_raises :: "('r, 'u) work \<Rightarrow> bool" where
  "never_raises w = (case func w of Inl e \<Rightarrow> False | Inr rv \<Rightarrow> \<forall>u. \<not> isl (cb w rv u))"

text \<open>The schedule that lets the drain task serve \<open>n\<close> items one after the other.\<close>

definition drain :: "nat \<Rightarrow> ('r, 'u) action list" where
  "drain n = concat (replicate n [Receive, Resume])"

section \<open>The polling loop and the staleness display\<close>

text \<open>
  \<^verbatim>\<open>RatesWidget\<close>: \<open>shown\<close> is the widget displayed (\<^verbatim>\<open>self._w\<close>), the rate columns or the
  delay message; \<open>delay_msg\<close> is the number \<open>N\<close> of the text \<^verbatim>\<open>"Ns ago"\<close>. Times are seconds,
  as exact rationals.
\<close>

datatype shown = Cols | DelayMsg

record rates_widget =
  time_since_update :: rat
  delay_msg :: int
  shown :: shown


text \<open>
  The state of \<^verbatim>\<open>ConsoleToplevel\<close> and \<^verbatim>\<open>ConsoleMain\<close>: the list walker, the part of the
  frame that has the focus, the torrent of the open detail window (when
  \<^verbatim>\<open>detail_shown\<close>), the time of the last successful round, the ids whose details have
  been requested through \<^verbatim>\<open>call_async_function\<close>, the rates widget of the footer, and the
  other texts of header and footer (\<open>'d\<close>, owned by the rendering layer).
\<close>

record ('w, 'd) console =
  data :: "'w walker"
  focus_position :: string
  detail :: "torrent option"
  last_update :: rat
  requested :: "pyval list"
  rates :: rates_widget
  texts :: 'd

text \<open>
  The operations of the rendering layer that the loop calls: the constructor of
  \<^verbatim>\<open>TorrentEntry\<close>, \<^verbatim>\<open>ConsoleFooter.update\<close> and \<^verbatim>\<open>ConsoleHeader.update\<close>. Each may raise.
\<close>

record ('w, 'd) rendering =
  TorrentEntry :: "torrent \<Rightarrow> exn + 'w"
  ftr_update :: "torrent list \<Rightarrow> torrent \<Rightarrow> torrent \<Rightarrow> rat \<Rightarrow> 'd \<Rightarrow> exn + 'd"
  hdr_update :: "torrent \<Rightarrow> 'd \<Rightarrow> exn + 'd"

text \<open>
  \<^verbatim>\<open>jump_to_top\<close> assigns \<^verbatim>\<open>self.view.focus_position\<close>; the list box passes the position to
  the walker's \<^verbatim>\<open>set_focus\<close>.
\<close>

definition jump_to_top :: "'w walker \<Rightarrow> exn + 'w walker" where
  "jump_to_top s =
     (if length (entries s) > 0
      then (case order s of [] \<Rightarrow> Inl StopIteration | x # xs \<Rightarrow> set_focus x s)
      else Inr s)"

definition jump_if_unfocused :: "('w, 'd) console \<Rightarrow> exn + ('w, 'd) console" where
  "jump_if_unfocused c =
     (if focus_position c \<noteq> ''body''
      then (case jump_to_top (data c) of Inl e \<Rightarrow> Inl e | Inr s \<Rightarrow> Inr (c\<lparr>data := s\<rparr>))
      else Inr c)"

definition render_torrents ::
  "('w, 'd) rendering \<Rightarrow> torrent list \<Rightarrow> ('w, 'd) console \<Rightarrow> exn + ('w, 'd) console" where
  "render_torrents ops tlist c =
     (case set_entries (TorrentEntry ops) tlist (data c) of
        Inl e \<Rightarrow> Inl e
      | Inr s \<Rightarrow>
          (case jump_if_unfocused (c\<lparr>data := s\<rparr>) of
             Inl e \<Rightarrow> Inl e
           | Inr c1 \<Rightarrow>
               (case detail c1 of
                  None \<Rightarrow> Inr c1
                | Some te \<Rightarrow>
                    (case getitem te ''id'' of
                       Inl e \<Rightarrow> Inl e
                     | Inr tid \<Rightarrow> Inr (c1\<lparr>requested := requested c1 @ [tid]\<rparr>)))))"

text \<open>
  One iteration of the \<^verbatim>\<open>while True\<close> of \<^verbatim>\<open>update_data\<close>, as the loop observes it:
  \<open>started\<close> is \<^verbatim>\<open>it\<close>, the clock at the top of the iteration; the three outcomes are those of
  \<^verbatim>\<open>get_torrents\<close>, \<^verbatim>\<open>get_session\<close> and \<^verbatim>\<open>get_session_stats\<close> (a call after one that raised is
  not made, and its outcome not looked at); \<open>ended\<close> is the clock when the \<^verbatim>\<open>try\<close> statement
  is left, by the third result or by the exception.
\<close>

record round =
  started :: rat
  torrents :: "exn + torrent list"
  session :: "exn + torrent"
  stats :: "exn + torrent"
  ended :: rat

text \<open>The three awaits of the \<^verbatim>\<open>try\<close> statement, in order.\<close>

definition fetch :: "round \<Rightarrow> exn + (torrent list \<times> torrent \<times> torrent)" where
  "fetch rd =
     (case torrents rd of
        Inl e \<Rightarrow> Inl e
      | Inr r \<Rightarrow>
          (case session rd of
             Inl e \<Rightarrow> Inl e
           | Inr ses \<Rightarrow>
               (case stats rd of
                  Inl e \<Rightarrow> Inl e
                | Inr st \<Rightarrow> Inr (r, ses, st))))"

text \<open>
  The body of the loop. \<^verbatim>\<open>except Exception: continue\<close> goes back to the top of the loop
  with the state as it was; an exception of the rendering part is outside the \<^verbatim>\<open>try\<close> and
  leaves the loop.
\<close>

definition update_data_round ::
  "('w, 'd) rendering \<Rightarrow> round \<Rightarrow> ('w, 'd) console \<Rightarrow> exn + ('w, 'd) console" where
  "update_data_round ops rd c =
     (case fetch rd of
        Inl e \<Rightarrow> Inr c
      | Inr (r, ses, st) \<Rightarrow>
          (case render_torrents ops r (c\<lparr>last_update := ended rd\<rparr>) of
             Inl e \<Rightarrow> Inl e
           | Inr c1 \<Rightarrow>
               (case ftr_update ops r st ses (ended rd - started rd) (texts c1) of
                  Inl e \<Rightarrow> Inl e
                | Inr d1 \<Rightarrow>
                    (case hdr_update ops ses d1 of
                       Inl e \<Rightarrow> Inl e
                     | Inr d2 \<Rightarrow> Inr (c1\<lparr>texts := d2\<rparr>)))))"

text \<open>
  The earliest time at which the next iteration reads the clock and calls
  \<^verbatim>\<open>get_torrents\<close> again: after \<^verbatim>\<open>continue\<close> at once, after a successful round when
  \<^verbatim>\<open>trio.sleep_until(it + 3.0)\<close> returns.
\<close>

definition poll_period :: rat where
  "poll_period = 3"

definition next_attempt :: "round \<Rightarrow> rat" where
  "next_attempt rd =
     (case fetch rd of
        Inl e \<Rightarrow> ended rd
      | Inr v \<Rightarrow> max (ended rd) (started rd + poll_period))"

text \<open>The loop over the rounds of a run; it ends early when an exception leaves it.\<close>

fun update_data ::
  "('w, 'd) rendering \<Rightarrow> round list \<Rightarrow> ('w, 'd) console \<Rightarrow> exn + ('w, 'd) console" where
  "update_data ops [] c = Inr c"
| "update_data ops (rd # rds) c =
     (case update_data_round ops rd c of
        Inl e \<Rightarrow> Inl e
      | Inr c1 \<Rightarrow> update_data ops rds c1)"

text \<open>The state after \<^verbatim>\<open>ConsoleToplevel.__init__\<close> at clock \<open>now\<close>.\<close>

definition console_init :: "rat \<Rightarrow> 'd \<Rightarrow> ('w, 'd) console" where
  "console_init now d =
     \<lparr>data = walker_init, focus_position = ''header'', detail = None, last_update = now,
      requested = [], rates = \<lparr>time_since_update = 0, delay_msg = 0, shown = Cols\<rparr>,
      texts = d\<rparr>"







section \<open>Example data\<close>

text \<open>
  A torrent as the server sends it, reduced to the fields the list view reads: a seeding
  torrent (status 6) without trackers, with the given id, name and size.
\<close>

definition example_torrent :: "rat \<Rightarrow> string \<Rightarrow> rat \<Rightarrow> torrent" where
  "example_torrent i n sz =
     map_of [(''id'', PNum i), (''name'', PStr n), (''sizeWhenDone'', PNum sz),
             (''status'', PNum 6), (''trackerStats'', PList []), (''percentDone'', PNum 1),
             (''uploadedEver'', PNum 0), (''peersConnected'', PNum 0), (''rateUpload'', PNum 0),
             (''rateDownload'', PNum 0), (''eta'', PNum (- 1)), (''uploadRatio'', PNum 0)]"

text \<open>
  A widget constructor for the examples. It reads the fields that \<^verbatim>\<open>TorrentEntry.__init__\<close>
  reads of every torrent, raises \<^verbatim>\<open>KeyError\<close> when one is missing, and keeps the torrent
  (\<^verbatim>\<open>self.torrent_info = te\<close>); the formatting of the texts is left out.
\<close>

definition entry_fields :: "string list" where
  "entry_fields =
     [''status'', ''trackerStats'', ''name'', ''sizeWhenDone'', ''percentDone'',
      ''uploadedEver'', ''peersConnected'', ''rateUpload'', ''rateDownload'', ''eta'',
      ''uploadRatio'']"

definition plain_entry :: "torrent \<Rightarrow> exn + torrent" where
  "plain_entry te = (if list_all (\<lambda>f. te f \<noteq> None) entry_fields then Inr te else Inl KeyError)"

definition example_list :: "torrent list" where
  "example_list =
     [example_torrent 1 ''b'' 5, example_torrent 2 ''a'' 5, example_torrent 3 ''a'' 3]"

text \<open>The walker after \<^verbatim>\<open>set_entries(example_list)\<close> on a new walker.\<close>

definition example_walker :: "torrent walker" where
  "example_walker =
     \<lparr>entries = [(PNum 1, example_torrent 1 ''b'' 5, example_torrent 1 ''b'' 5),
                 (PNum 2, example_torrent 2 ''a'' 5, example_torrent 2 ''a'' 5),
                 (PNum 3, example_torrent 3 ''a'' 3, example_torrent 3 ''a'' 3)],
      order = [PNum 2, PNum 3, PNum 1],
      sorts = [(''name'', False)],
      focus = PNum 2\<rparr>"

text \<open>The three records of the sort example, held by a walker that shows them by name.\<close>

definition sort_example :: "unit walker" where
  "sort_example =
     \<lparr>entries =
        [(PNum 1, map_of [(''id'', PNum 1), (''name'', PStr ''b''), (''size'', PNum 5)], ()),
         (PNum 2, map_of [(''id'', PNum 2), (''name'', PStr ''a''), (''size'', PNum 5)], ()),
         (PNum 3, map_of [(''id'', PNum 3), (''name'', PStr ''a''), (''size'', PNum 3)], ())],
      order = [PNum 2, PNum 3, PNum 1],
      sorts = [(''name'', False)],
      focus = PNum 2\<rparr>"

text \<open>Two work items for the bridge examples: the first producer raises, the second returns 1.\<close>

definition failing_work :: "(nat, nat list) work" where
  "failing_work = \<lparr>func = Inl OSError, cb = (\<lambda>rv u. Inr (u @ [rv]))\<rparr>"

definition good_work :: "nat \<Rightarrow> (nat, nat list) work" where
  "good_work v = \<lparr>func = Inr v, cb = (\<lambda>rv u. Inr (u @ [rv]))\<rparr>"

text \<open>An item whose continuation stores the value and then raises.\<close>

definition bad_callback_work :: "(nat, nat list) work" where
  "bad_callback_work = \<lparr>func = Inr 0, cb = (\<lambda>rv u. Inl (KeyError, u @ [rv]))\<rparr>"

text \<open>
  A run of the bridge: two submissions, the first item is received, a third submission
  arrives while its producer is awaited, and the producer finishes.
\<close>

definition example_run :: "(nat, nat list) action list" where
  "example_run =
     [Submit (good_work 10), Submit (good_work 20), Receive, Submit (good_work 30), Resume]"

text \<open>
  A run in which the producer of the first item raises, and one in which the
  continuation of the first item raises; in both the drain task is scheduled again
  afterwards.
\<close>

definition failing_run :: "(nat, nat list) action list" where
  "failing_run = [Submit failing_work, Submit (good_work 20), Receive, Resume, Receive, Resume]"

definition bad_callback_run :: "(nat, nat list) action list" where
  "bad_callback_run =
     [Submit bad_callback_work, Submit (good_work 20), Receive, Resume, Receive, Resume]"

text \<open>
  A rendering layer for the examples, whose header and footer updates never raise, a
  console that shows the example torrents, and two polling rounds: one in which
  \<^verbatim>\<open>get_session\<close> raises after \<^verbatim>\<open>get_torrents\<close> has returned, and one in which
  \<^verbatim>\<open>get_torrents\<close> raises a hundredth of a second after the round has started.
\<close>

definition example_rendering :: "(torrent, unit) rendering" where
  "example_rendering =
     \<lparr>TorrentEntry = plain_entry,
      ftr_update = (\<lambda>tlist st ses dur d. Inr d),
      hdr_update = (\<lambda>ses d. Inr d)\<rparr>"

definition example_console :: "(torrent, unit) console" where
  "example_console = (console_init 0 ())\<lparr>data := example_walker\<rparr>"

definition session_fails :: round where
  "session_fails =
     \<lparr>started = 10, torrents = Inr [example_torrent 4 ''c'' 1], session = Inl RPCError,
      stats = Inr Map.empty, ended = 21 / 2\<rparr>"

definition connection_refused :: round where
  "connection_refused =
     \<lparr>started = 0, torrents = Inl OSError, session = Inl OSError, stats = Inl OSError,
      ended = 1 / 100\<rparr>"

text \<open>A raw list in which two records have the identifier 7.\<close>

definition duplicate_list :: "torrent list" where
  "duplicate_list = [example_torrent 7 ''x'' 1, example_torrent 7 ''y'' 2]"

section \<open>Auxiliary facts\<close>

lemma map_of_dict_set: "map_of (dict_set k v d) = (map_of d)(k \<mapsto> v)"
  by (induction d) (auto simp: fun_eq_iff)

lemma keys_dict_set: "fst ` set (dict_set k v d) = insert k (fst ` set d)"
  by (induction d) auto

lemma distinct_dict_set: "distinct (map fst d) \<Longrightarrow> distinct (map fst (dict_set k v d))"
  by (induction d) (auto simp: keys_dict_set)

lemma values_dict_set: "set (dict_set k v d) \<subseteq> insert (k, v) (set d)"
  by (induction d) auto

lemma build_entries_keys:
  "build_entries mk tlist d = Inr es \<Longrightarrow> distinct (map fst d) \<Longrightarrow>
     distinct (map fst es) \<and> fst ` set es = fst ` set d \<union> {k. \<exists>t \<in> set tlist. t ''id'' = Some k}"
proof (induction tlist arbitrary: d)
  case Nil
  then show ?case by simp
next
  case (Cons i rest)
  from Cons.prems(1) obtain k w where k: "i ''id'' = Some k" and w: "mk i = Inr w"
    and hk: "hashable k" and rest: "build_entries mk rest (dict_set k (i, w) d) = Inr es"
    by (auto simp: getitem_def split: option.splits sum.splits if_splits)
  from Cons.IH [OF rest distinct_dict_set [OF Cons.prems(2)]]
  show ?case using k by (auto simp: keys_dict_set)
qed

lemma mset_insert_pair: "mset (insert_pair p qs) = add_mset p (mset qs)"
  by (induction qs) auto

lemma mset_stable_sort: "mset (stable_sort ps) = mset ps"
  unfolding stable_sort_def by (induction ps) (auto simp: mset_insert_pair)

lemma map_exn_Inr: "map_exn f xs = Inr ks \<Longrightarrow> map f xs = map Inr ks"
  by (induction xs arbitrary: ks) (auto split: sum.splits)

lemma map_exn_length: "map_exn f xs = Inr ks \<Longrightarrow> length ks = length xs"
  by (drule map_exn_Inr) (metis length_map)

lemma mset_list_sort: "list_sort kf r xs = Inr ys \<Longrightarrow> mset ys = mset xs"
proof -
  assume a: "list_sort kf r xs = Inr ys"
  then obtain ks where ks: "map_exn kf xs = Inr ks"
    and ys: "ys = map snd (if r then rev (stable_sort (rev (zip ks xs))) else stable_sort (zip ks xs))"
    by (auto simp: list_sort_def sort_pairs_def split: sum.splits if_splits)
  have len: "length ks = length xs" by (rule map_exn_length [OF ks])
  have srt: "mset (map snd (stable_sort ps)) = mset (map snd ps)" for ps :: "(pyval \<times> 'a) list"
    by (simp only: mset_map mset_stable_sort)
  have "mset ys = mset (map snd (zip ks xs))"
  proof (cases r)
    case True
    have "mset ys = mset (map snd (stable_sort (rev (zip ks xs))))"
      by (simp add: ys True flip: rev_map)
    also have "\<dots> = mset (map snd (rev (zip ks xs)))" by (rule srt)
    also have "\<dots> = mset (map snd (zip ks xs))" by (simp flip: rev_map)
    finally show ?thesis .
  next
    case False
    then show ?thesis by (simp add: ys mset_stable_sort)
  qed
  also have "\<dots> = mset xs" using len by simp
  finally show ?thesis .
qed

lemma mset_do_sort_loop: "do_sort_loop srts es ord = Inr ord' \<Longrightarrow> mset ord' = mset ord"
proof (induction srts es ord rule: do_sort_loop.induct)
  case (1 es ord)
  then show ?case by simp
next
  case (2 key rv rest es ord)
  then show ?case by (auto split: sum.splits dest: mset_list_sort)
qed


lemma key_lt_asym: "key_lt a b \<Longrightarrow> \<not> key_lt b a"
  by (cases a; cases b) (auto simp: key_lt_def)

lemma key_le_trans_num:
  "is_num a \<Longrightarrow> is_num b \<Longrightarrow> is_num c \<Longrightarrow> \<not> key_lt b a \<Longrightarrow> \<not> key_lt c b \<Longrightarrow> \<not> key_lt c a"
  by (cases a; cases b; cases c) (auto simp: key_lt_def)

lemma key_le_trans_str:
  "is_str a \<Longrightarrow> is_str b \<Longrightarrow> is_str c \<Longrightarrow> \<not> key_lt b a \<Longrightarrow> \<not> key_lt c b \<Longrightarrow> \<not> key_lt c a"
  by (cases a; cases b; cases c) (auto simp: key_lt_def)

lemma key_le_trans:
  "uniform K \<Longrightarrow> a \<in> K \<Longrightarrow> b \<in> K \<Longrightarrow> c \<in> K \<Longrightarrow> \<not> key_lt b a \<Longrightarrow> \<not> key_lt c b \<Longrightarrow> \<not> key_lt c a"
proof -
  assume u: "uniform K" and m: "a \<in> K" "b \<in> K" "c \<in> K"
    and le: "\<not> key_lt b a" "\<not> key_lt c b"
  from u consider "\<forall>k \<in> K. is_num k" | "\<forall>k \<in> K. is_str k"
    unfolding uniform_def by blast
  then show ?thesis
  proof cases
    case 1
    with m have "is_num a" "is_num b" "is_num c" by simp_all
    then show ?thesis using le by (rule key_le_trans_num)
  next
    case 2
    with m have "is_str a" "is_str b" "is_str c" by simp_all
    then show ?thesis using le by (rule key_le_trans_str)
  qed
qed

lemma set_insert_pair: "set (insert_pair p qs) = insert p (set qs)"
  by (induction qs) auto

lemma set_stable_sort: "set (stable_sort ps) = set ps"
  unfolding stable_sort_def by (induction ps) (auto simp: set_insert_pair)

lemma sorted_insert_pair:
  assumes "uniform K" "fst p \<in> K" "fst ` set qs \<subseteq> K"
    and "sorted_wrt (\<lambda>x y. \<not> key_lt (fst y) (fst x)) qs"
  shows "sorted_wrt (\<lambda>x y. \<not> key_lt (fst y) (fst x)) (insert_pair p qs)"
  using assms(3,4)
proof (induction qs)
  case Nil
  then show ?case by simp
next
  case (Cons q qs)
  show ?case
  proof (cases "key_lt (fst q) (fst p)")
    case True
    have "sorted_wrt (\<lambda>x y. \<not> key_lt (fst y) (fst x)) (insert_pair p qs)"
      using Cons by simp
    moreover have "\<forall>y \<in> set (insert_pair p qs). \<not> key_lt (fst y) (fst q)"
      using Cons.prems(2) True by (auto simp: set_insert_pair dest: key_lt_asym)
    ultimately show ?thesis using True by simp
  next
    case False
    have "\<not> key_lt (fst y) (fst p)" if "y \<in> set qs" for y
    proof -
      have "\<not> key_lt (fst y) (fst q)" using Cons.prems(2) that by simp
      moreover have "fst y \<in> K" "fst q \<in> K" using Cons.prems(1) that by auto
      ultimately show ?thesis using key_le_trans [OF assms(1) assms(2), of "fst q" "fst y"] False
        by blast
    qed
    then show ?thesis using False Cons.prems(2) by simp
  qed
qed

lemma sorted_stable_sort:
  "uniform K \<Longrightarrow> fst ` set ps \<subseteq> K \<Longrightarrow> sorted_wrt (\<lambda>x y. \<not> key_lt (fst y) (fst x)) (stable_sort ps)"
proof (induction ps)
  case Nil
  then show ?case by (simp add: stable_sort_def)
next
  case (Cons p ps)
  have "sorted_wrt (\<lambda>x y. \<not> key_lt (fst y) (fst x)) (insert_pair p (stable_sort ps))"
    using Cons by (intro sorted_insert_pair [where K = K]) (auto simp: set_stable_sort)
  then show ?case by (simp add: stable_sort_def)
qed

text \<open>Stability: elements the sort ranks equal stay in the relation they were in before.\<close>

lemma stable_insert_pair:
  assumes "sorted_wrt (\<lambda>x y. ranks_equal (fst x) (fst y) \<longrightarrow> R x y) qs"
    and "\<forall>y \<in> set qs. ranks_equal (fst p) (fst y) \<longrightarrow> R p y"
  shows "sorted_wrt (\<lambda>x y. ranks_equal (fst x) (fst y) \<longrightarrow> R x y) (insert_pair p qs)"
  using assms
proof (induction qs)
  case Nil
  then show ?case by simp
next
  case (Cons q qs)
  show ?case
  proof (cases "key_lt (fst q) (fst p)")
    case True
    then have "\<not> ranks_equal (fst q) (fst p)" by (simp add: ranks_equal_def)
    then show ?thesis using True Cons by (auto simp: set_insert_pair)
  next
    case False
    then show ?thesis using Cons.prems by simp
  qed
qed

lemma stable_stable_sort:
  "sorted_wrt R ps \<Longrightarrow> sorted_wrt (\<lambda>x y. ranks_equal (fst x) (fst y) \<longrightarrow> R x y) (stable_sort ps)"
proof (induction ps)
  case Nil
  then show ?case by (simp add: stable_sort_def)
next
  case (Cons p ps)
  have "sorted_wrt (\<lambda>x y. ranks_equal (fst x) (fst y) \<longrightarrow> R x y) (insert_pair p (stable_sort ps))"
    using Cons by (intro stable_insert_pair) (auto simp: set_stable_sort)
  then show ?case by (simp add: stable_sort_def)
qed


lemma build_entries_total:
  "list_all (\<lambda>t. field_is hashable ''id'' t \<and> \<not> isl (mk t)) tlist \<Longrightarrow>
     \<exists>es. build_entries mk tlist d = Inr es"
proof (induction tlist arbitrary: d)
  case Nil
  then show ?case by simp
next
  case (Cons i rest)
  from Cons.prems obtain k w where "i ''id'' = Some k" "hashable k" "mk i = Inr w"
    by (cases "mk i") (auto simp: field_is_def split: option.splits)
  moreover from Cons.prems Cons.IH have "\<exists>es. build_entries mk rest (dict_set k (i, w) d) = Inr es"
    by simp
  ultimately show ?case by (simp add: getitem_def)
qed

lemma build_entries_torrents:
  "build_entries mk tlist d = Inr es \<Longrightarrow>
     (fst \<circ> snd) ` set es \<subseteq> (fst \<circ> snd) ` set d \<union> set tlist"
proof (induction tlist arbitrary: d)
  case Nil
  then show ?case by simp
next
  case (Cons i rest)
  from Cons.prems obtain k w where rest: "build_entries mk rest (dict_set k (i, w) d) = Inr es"
    by (auto simp: getitem_def split: option.splits sum.splits if_splits)
  have "(fst \<circ> snd) ` set (dict_set k (i, w) d) \<subseteq> insert i ((fst \<circ> snd) ` set d)"
    using values_dict_set [of k "(i, w)" d] by force
  with Cons.IH [OF rest] show ?case by auto
qed

lemma entry_keys_total:
  assumes "\<forall>t \<in> (fst \<circ> snd) ` set es. field_is P key t"
  shows "set ord \<subseteq> fst ` set es \<Longrightarrow>
     \<exists>ks. map_exn (entry_field es key) ord = Inr ks \<and> list_all P ks"
proof (induction ord)
  case Nil
  then show ?case by simp
next
  case (Cons x ord)
  from Cons.prems obtain t w where m: "map_of es x = Some (t, w)"
    by (cases "map_of es x") (auto simp: map_of_eq_None_iff)
  then have "(x, t, w) \<in> set es" by (rule map_of_SomeD)
  then have "field_is P key t" using assms by force
  then obtain v where v: "t key = Some v" "P v"
    by (auto simp: field_is_def split: option.splits)
  from Cons obtain ks where "map_exn (entry_field es key) ord = Inr ks" "list_all P ks"
    by auto
  moreover have "entry_field es key x = Inr v"
    using m v by (simp add: entry_field_def getitem_def)
  ultimately show ?case using v by simp
qed

lemma sortable_by_subset:
  "sortable_by key ts \<Longrightarrow> K \<subseteq> set ts \<Longrightarrow>
     (\<forall>t \<in> K. field_is is_num key t) \<or> (\<forall>t \<in> K. field_is is_str key t)"
  unfolding sortable_by_def list_all_iff by blast

lemma do_sort_loop_total:
  assumes "(fst \<circ> snd) ` set es \<subseteq> set ts"
  shows "list_all (\<lambda>(key, rv). sortable_by key ts) srts \<Longrightarrow> set ord \<subseteq> fst ` set es \<Longrightarrow>
     \<exists>ord'. do_sort_loop srts es ord = Inr ord'"
proof (induction srts arbitrary: ord)
  case Nil
  then show ?case by simp
next
  case (Cons kr srts)
  obtain key rv where kr: "kr = (key, rv)" by (cases kr)
  from Cons.prems(1) kr have sb: "sortable_by key ts" by simp
  have "\<exists>ks. map_exn (entry_field es key) ord = Inr ks \<and> comparable_keys ks"
    using sortable_by_subset [OF sb assms]
  proof
    assume "\<forall>t \<in> (fst \<circ> snd) ` set es. field_is is_num key t"
    from entry_keys_total [OF this Cons.prems(2)] show ?thesis
      by (auto simp: comparable_keys_def)
  next
    assume "\<forall>t \<in> (fst \<circ> snd) ` set es. field_is is_str key t"
    from entry_keys_total [OF this Cons.prems(2)] show ?thesis
      by (auto simp: comparable_keys_def)
  qed
  then obtain ord1 where s1: "list_sort (entry_field es key) rv ord = Inr ord1"
    by (auto simp: list_sort_def)
  from mset_list_sort [OF s1] have "set ord1 = set ord" by (rule mset_eq_setD)
  with Cons.IH [of ord1] Cons.prems obtain ord' where "do_sort_loop srts es ord1 = Inr ord'"
    by auto
  then show ?case using s1 kr by simp
qed



lemma do_sort_fields:
  assumes "do_sort s = Inr s'"
  shows "entries s' = entries s" "sorts s' = sorts s" "focus s' = focus s"
    "mset (order s') = mset (order s)"
    "do_sort_loop (sorts s) (entries s) (order s) = Inr (order s')"
proof -
  obtain ord where l: "do_sort_loop (sorts s) (entries s) (order s) = Inr ord"
    using assms by (cases "do_sort_loop (sorts s) (entries s) (order s)") (simp_all add: do_sort_def)
  with assms have s': "s' = s\<lparr>order := ord\<rparr>" by (simp add: do_sort_def)
  show "entries s' = entries s" "sorts s' = sorts s" "focus s' = focus s"
    by (simp_all add: s')
  show "mset (order s') = mset (order s)" using mset_do_sort_loop [OF l] by (simp add: s')
  show "do_sort_loop (sorts s) (entries s) (order s) = Inr (order s')" using l by (simp add: s')
qed

lemma set_sort_unfold:
  assumes "set_sort key rv s = Inr s'"
  obtains k r where
    "(case key of None \<Rightarrow> sort_key_prop s | Some k \<Rightarrow> Inr k) = Inr k"
    "(case rv of None \<Rightarrow> sort_reversed s | Some r \<Rightarrow> Inr r) = Inr r"
    "do_sort (s\<lparr>sorts := pop_excess (sorts s @ [(k, r)])\<rparr>) = Inr s'"
proof -
  obtain k where k: "(case key of None \<Rightarrow> sort_key_prop s | Some k \<Rightarrow> Inr k) = Inr k"
    using assms
    by (cases "case key of None \<Rightarrow> sort_key_prop s | Some k \<Rightarrow> Inr k") (simp_all add: set_sort_def)
  obtain r where r: "(case rv of None \<Rightarrow> sort_reversed s | Some r \<Rightarrow> Inr r) = Inr r"
    using assms k
    by (cases "case rv of None \<Rightarrow> sort_reversed s | Some r \<Rightarrow> Inr r") (simp_all add: set_sort_def)
  from assms k r have "do_sort (s\<lparr>sorts := pop_excess (sorts s @ [(k, r)])\<rparr>) = Inr s'"
    by (simp add: set_sort_def)
  with k r that show ?thesis by blast
qed

lemma set_sort_fields:
  assumes "set_sort key rv s = Inr s'"
  shows "entries s' = entries s" "focus s' = focus s" "mset (order s') = mset (order s)"
proof -
  from assms obtain k r where d: "do_sort (s\<lparr>sorts := pop_excess (sorts s @ [(k, r)])\<rparr>) = Inr s'"
    by (rule set_sort_unfold)
  show "entries s' = entries s" using do_sort_fields(1) [OF d] by simp
  show "focus s' = focus s" using do_sort_fields(3) [OF d] by simp
  show "mset (order s') = mset (order s)" using do_sort_fields(4) [OF d] by simp
qed

lemma ids_of_set: "set (ids_of tlist) = {k. \<exists>t \<in> set tlist. t ''id'' = Some k}"
  by (auto simp: ids_of_def split: option.splits)

lemma set_entries_unfold:
  assumes "set_entries mk tlist s = Inr s'"
  obtains es s1 where
    "build_entries mk tlist [] = Inr es"
    "do_sort (s\<lparr>entries := es, order := map fst es\<rparr>) = Inr s1"
    "s' = (if length (order s1) = 0 then s1\<lparr>focus := PNone\<rparr>
           else if focus s1 \<notin> set (order s1) then s1\<lparr>focus := hd (order s1)\<rparr>
           else s1)"
proof -
  obtain es where es: "build_entries mk tlist [] = Inr es"
    using assms by (cases "build_entries mk tlist []") (simp_all add: set_entries_def)
  obtain s1 where s1: "do_sort (s\<lparr>entries := es, order := map fst es\<rparr>) = Inr s1"
    using assms es
    by (cases "do_sort (s\<lparr>entries := es, order := map fst es\<rparr>)") (simp_all add: set_entries_def)
  from assms es s1 have
    "s' = (if length (order s1) = 0 then s1\<lparr>focus := PNone\<rparr>
           else if focus s1 \<notin> set (order s1) then s1\<lparr>focus := hd (order s1)\<rparr>
           else s1)"
    by (simp add: set_entries_def)
  with es s1 that show ?thesis by blast
qed

lemma set_entries_fields:
  assumes "set_entries mk tlist s = Inr s'"
  shows "build_entries mk tlist [] = Inr (entries s')"
    "mset (order s') = mset (map fst (entries s'))"
    "sorts s' = sorts s"
    "focus s' = (if order s' = [] then PNone
                 else if focus s \<notin> set (order s') then hd (order s') else focus s)"
    "do_sort_loop (sorts s) (entries s') (map fst (entries s')) = Inr (order s')"
proof -
  from assms obtain es s1 where es: "build_entries mk tlist [] = Inr es"
    and s1: "do_sort (s\<lparr>entries := es, order := map fst es\<rparr>) = Inr s1"
    and s': "s' = (if length (order s1) = 0 then s1\<lparr>focus := PNone\<rparr>
                  else if focus s1 \<notin> set (order s1) then s1\<lparr>focus := hd (order s1)\<rparr>
                  else s1)"
    by (rule set_entries_unfold)
  note f = do_sort_fields [OF s1]
  have e: "entries s' = es" using f(1) by (simp add: s')
  have o: "order s' = order s1" by (simp add: s')
  show "build_entries mk tlist [] = Inr (entries s')" using es e by simp
  show "mset (order s') = mset (map fst (entries s'))" using f(4) e o by simp
  show "sorts s' = sorts s" using f(2) by (simp add: s')
  show "focus s' = (if order s' = [] then PNone
                 else if focus s \<notin> set (order s') then hd (order s') else focus s)"
    using f(3) by (simp add: s')
  show "do_sort_loop (sorts s) (entries s') (map fst (entries s')) = Inr (order s')"
    using f(5) e o by simp
qed

lemma set_entries_permutation:
  assumes "set_entries mk tlist s = Inr s'"
  shows "order_is_permutation s' \<and> set (order s') = set (ids_of tlist)"
proof -
  define es ord where "es = entries s'" and "ord = order s'"
  note f = set_entries_fields [OF assms]
  have es: "build_entries mk tlist [] = Inr es" and ord: "mset ord = mset (map fst es)"
    and s': "entries s' = es" "order s' = ord"
    using f(1,2) by (simp_all add: es_def ord_def)
  from build_entries_keys [OF es] have d: "distinct (map fst es)"
    and k: "fst ` set es = set (ids_of tlist)"
    by (simp_all add: ids_of_set)
  from ord have "set ord = set (map fst es)" by (rule mset_eq_setD)
  moreover from ord d have "distinct ord" by (metis mset_eq_imp_distinct_iff)
  ultimately show ?thesis using d k s' by (simp add: order_is_permutation_def)
qed

lemma set_entries_total:
  assumes "well_formed mk (sorts s) tlist"
  shows "\<exists>s'. set_entries mk tlist s = Inr s'"
proof -
  from assms have a: "list_all (\<lambda>t. field_is hashable ''id'' t \<and> \<not> isl (mk t)) tlist"
    and b: "list_all (\<lambda>(key, rv). sortable_by key tlist) (sorts s)"
    by (simp_all add: well_formed_def)
  from build_entries_total [OF a] obtain es where es: "build_entries mk tlist [] = Inr es"
    by blast
  from build_entries_torrents [OF es] have "(fst \<circ> snd) ` set es \<subseteq> set tlist" by simp
  from do_sort_loop_total [OF this b, of "map fst es"]
  obtain ord where "do_sort_loop (sorts s) es (map fst es) = Inr ord" by auto
  then show ?thesis using es by (simp add: set_entries_def do_sort_def)
qed

lemma set_sort_permutation:
  assumes "order_is_permutation s0" "set_sort key rv s0 = Inr s1"
  shows "order_is_permutation s1 \<and> entries s1 = entries s0"
proof -
  note f = set_sort_fields [OF assms(2)]
  from f(3) have "set (order s1) = set (order s0)" by (rule mset_eq_setD)
  moreover from f(3) assms(1) have "distinct (order s1)"
    by (metis mset_eq_imp_distinct_iff order_is_permutation_def)
  ultimately show ?thesis using assms(1) f(1) by (simp add: order_is_permutation_def)
qed


lemma set_pop_excess: "set (pop_excess xs) \<subseteq> set xs"
proof (induction xs rule: pop_excess.induct)
  case (1 xs)
  show ?case
  proof (cases "length xs > 2")
    case True
    then have "xs \<noteq> []" by auto
    then have "set (tl xs) \<subseteq> set xs" by (auto dest: list.set_sel(2))
    with 1 [OF True] True show ?thesis by (subst pop_excess.simps) auto
  next
    case False
    then show ?thesis by (subst pop_excess.simps) simp
  qed
qed

lemma set_sort_total:
  assumes "history_sortable s" "set (order s) \<subseteq> fst ` set (entries s)"
    "\<forall>k. key = Some k \<longrightarrow> holds_sortable s k"
  shows "\<exists>s'. set_sort key rv s = Inr s'"
proof -
  from assms(1) have ne: "sorts s \<noteq> []"
    and all: "list_all (\<lambda>(key, rv). holds_sortable s key) (sorts s)"
    by (simp_all add: history_sortable_def)
  define k where "k = (case key of None \<Rightarrow> fst (last (sorts s)) | Some k \<Rightarrow> k)"
  define r where "r = (case rv of None \<Rightarrow> snd (last (sorts s)) | Some r \<Rightarrow> r)"
  have k: "(case key of None \<Rightarrow> sort_key_prop s | Some k \<Rightarrow> Inr k) = Inr k"
    using ne by (cases key) (simp_all add: k_def sort_key_prop_def)
  have r: "(case rv of None \<Rightarrow> sort_reversed s | Some r \<Rightarrow> Inr r) = Inr r"
    using ne by (cases rv) (simp_all add: r_def sort_reversed_def)
  have hk: "holds_sortable s k"
  proof (cases key)
    case None
    have "last (sorts s) \<in> set (sorts s)" using ne by simp
    with all have "holds_sortable s (fst (last (sorts s)))"
      by (auto simp: list_all_iff)
    then show ?thesis using None by (simp add: k_def)
  next
    case (Some k')
    with assms(3) show ?thesis by (simp add: k_def)
  qed
  let ?srts = "pop_excess (sorts s @ [(k, r)])"
  have "list_all (\<lambda>(key, rv). holds_sortable s key) (sorts s @ [(k, r)])"
    using all hk by simp
  then have "list_all (\<lambda>(key, rv). holds_sortable s key) ?srts"
    using set_pop_excess [of "sorts s @ [(k, r)]"] unfolding list_all_iff by blast
  then have "list_all (\<lambda>(key, rv). sortable_by key (map (fst \<circ> snd) (entries s))) ?srts"
    by (simp add: holds_sortable_def)
  moreover have "(fst \<circ> snd) ` set (entries s) \<subseteq> set (map (fst \<circ> snd) (entries s))" by simp
  ultimately obtain ord where "do_sort_loop ?srts (entries s) (order s) = Inr ord"
    using do_sort_loop_total [of "entries s" _ ?srts "order s"] assms(2) by blast
  then show ?thesis using k r by (simp add: set_sort_def do_sort_def)
qed

subsection \<open>Sorted and stable\<close>

lemma sorted_sort_pairs:
  assumes "uniform K" "fst ` set ps \<subseteq> K"
  shows "sorted_wrt (\<lambda>x y. in_order r (fst x) (fst y)) (sort_pairs r ps)"
proof (cases r)
  case True
  have "sorted_wrt (\<lambda>x y. \<not> key_lt (fst y) (fst x)) (stable_sort (rev ps))"
    using assms by (intro sorted_stable_sort [where K = K]) simp_all
  then show ?thesis using True by (simp add: sort_pairs_def in_order_def sorted_wrt_rev)
next
  case False
  have "sorted_wrt (\<lambda>x y. \<not> key_lt (fst y) (fst x)) (stable_sort ps)"
    using assms by (intro sorted_stable_sort [where K = K]) simp_all
  then show ?thesis using False by (simp add: sort_pairs_def in_order_def)
qed

lemma stable_sort_pairs:
  assumes "sorted_wrt R ps"
  shows "sorted_wrt (\<lambda>x y. ranks_equal (fst x) (fst y) \<longrightarrow> R x y) (sort_pairs r ps)"
proof (cases r)
  case True
  from assms have "sorted_wrt (\<lambda>x y. R y x) (rev ps)" by (simp add: sorted_wrt_rev)
  then have "sorted_wrt (\<lambda>x y. ranks_equal (fst x) (fst y) \<longrightarrow> R y x) (stable_sort (rev ps))"
    by (rule stable_stable_sort)
  then have "sorted_wrt (\<lambda>x y. ranks_equal (fst y) (fst x) \<longrightarrow> R x y) (rev (stable_sort (rev ps)))"
    by (simp add: sorted_wrt_rev)
  then have "sorted_wrt (\<lambda>x y. ranks_equal (fst x) (fst y) \<longrightarrow> R x y) (rev (stable_sort (rev ps)))"
    by (rule sorted_wrt_mono_rel [rotated]) (simp add: ranks_equal_def)
  then show ?thesis using True by (simp add: sort_pairs_def)
next
  case False
  with stable_stable_sort [OF assms] show ?thesis by (simp add: sort_pairs_def)
qed

lemma set_sort_pairs: "set (sort_pairs r ps) = set ps"
  by (simp add: sort_pairs_def set_stable_sort)

lemma length_sort_pairs: "length (sort_pairs r ps) = length ps"
  by (metis (full_types) length_rev mset_stable_sort size_mset sort_pairs_def)

lemma map_exn_zip:
  "map_exn kf xs = Inr ks \<Longrightarrow> p \<in> set (zip ks xs) \<Longrightarrow> fst p = key_of kf (snd p)"
proof (induction xs arbitrary: ks)
  case Nil
  then show ?case by simp
next
  case (Cons x xs)
  from Cons.prems(1) obtain v vs where "kf x = Inr v" "map_exn kf xs = Inr vs" "ks = v # vs"
    by (auto split: sum.splits)
  with Cons show ?case by (auto simp: key_of_def)
qed

lemma list_sort_unfold:
  assumes "list_sort kf r xs = Inr ys"
  obtains ks where "map_exn kf xs = Inr ks" "comparable_keys ks"
    "ys = map snd (sort_pairs r (zip ks xs))"
proof -
  obtain ks where ks: "map_exn kf xs = Inr ks"
    using assms by (cases "map_exn kf xs") (simp_all add: list_sort_def)
  with assms have "comparable_keys ks" "ys = map snd (sort_pairs r (zip ks xs))"
    by (simp_all add: list_sort_def split: if_splits)
  with ks that show ?thesis by blast
qed

lemma list_sort_sorted:
  assumes "list_sort kf r xs = Inr ys"
  shows "sorted_wrt (\<lambda>a b. in_order r (key_of kf a) (key_of kf b)) ys"
proof -
  from assms obtain ks where ks: "map_exn kf xs = Inr ks" and c: "comparable_keys ks"
    and ys: "ys = map snd (sort_pairs r (zip ks xs))"
    by (rule list_sort_unfold)
  have len: "length ks = length xs" by (rule map_exn_length [OF ks])
  let ?ps = "sort_pairs r (zip ks xs)"
  have keys: "fst p = key_of kf (snd p)" if "p \<in> set ?ps" for p
    using that map_exn_zip [OF ks] by (simp add: set_sort_pairs)
  have "sorted_wrt (\<lambda>x y. in_order r (fst x) (fst y)) ?ps"
  proof (cases "length ks \<le> 1")
    case True
    then have "length ?ps \<le> 1" using len by (simp add: length_sort_pairs)
    then show ?thesis by (cases ?ps) (auto simp: Suc_le_eq)
  next
    case False
    with c have "uniform (set ks)" by (auto simp: comparable_keys_def uniform_def list_all_iff)
    moreover have "fst ` set (zip ks xs) \<subseteq> set ks" by (auto dest: set_zip_leftD)
    ultimately show ?thesis by (rule sorted_sort_pairs)
  qed
  then have "sorted_wrt (\<lambda>x y. in_order r (key_of kf (snd x)) (key_of kf (snd y))) ?ps"
    by (rule sorted_wrt_mono_rel [rotated]) (simp add: keys)
  then show ?thesis by (simp add: ys sorted_wrt_map)
qed

lemma list_sort_stable:
  assumes "list_sort kf r xs = Inr ys" "sorted_wrt R xs"
  shows "sorted_wrt (\<lambda>a b. ranks_equal (key_of kf a) (key_of kf b) \<longrightarrow> R a b) ys"
proof -
  from assms(1) obtain ks where ks: "map_exn kf xs = Inr ks"
    and ys: "ys = map snd (sort_pairs r (zip ks xs))"
    by (rule list_sort_unfold)
  have len: "length ks = length xs" by (rule map_exn_length [OF ks])
  let ?ps = "sort_pairs r (zip ks xs)"
  have keys: "fst p = key_of kf (snd p)" if "p \<in> set ?ps" for p
    using that map_exn_zip [OF ks] by (simp add: set_sort_pairs)
  have "sorted_wrt (\<lambda>x y. R (snd x) (snd y)) (zip ks xs)"
    using assms(2) len by (simp flip: sorted_wrt_map)
  then have "sorted_wrt (\<lambda>x y. ranks_equal (fst x) (fst y) \<longrightarrow> R (snd x) (snd y)) ?ps"
    by (rule stable_sort_pairs)
  then have "sorted_wrt (\<lambda>x y. ranks_equal (key_of kf (snd x)) (key_of kf (snd y)) \<longrightarrow> R (snd x) (snd y)) ?ps"
    by (rule sorted_wrt_mono_rel [rotated]) (simp add: keys)
  then show ?thesis by (simp add: ys sorted_wrt_map)
qed


subsection \<open>The sort history\<close>

lemma field_of_key_of: "key_of (entry_field es key) = field_of es key"
  by (simp add: fun_eq_iff key_of_def field_of_def)

lemma pop_excess_last2: "xs \<noteq> [] \<Longrightarrow> pop_excess (xs @ [b]) = [last xs, b]"
proof (induction xs rule: list_nonempty_induct)
  case (single x)
  show ?case by (simp add: pop_excess.simps)
next
  case (cons x xs)
  have "pop_excess ((x # xs) @ [b]) = pop_excess (xs @ [b])"
    using cons.hyps by (subst pop_excess.simps) (cases xs; simp)
  with cons show ?case by simp
qed

lemma sorted_wrt_conj:
  "sorted_wrt P xs \<Longrightarrow> sorted_wrt Q xs \<Longrightarrow> sorted_wrt (\<lambda>a b. P a b \<and> Q a b) xs"
  by (induction xs) auto

lemma do_sort_loop_two:
  assumes "do_sort_loop [(k1, r1), (k2, r2)] es ord = Inr ord'"
  obtains mid where "list_sort (entry_field es k1) r1 ord = Inr mid"
    "list_sort (entry_field es k2) r2 mid = Inr ord'"
proof -
  obtain mid where m: "list_sort (entry_field es k1) r1 ord = Inr mid"
    using assms by (cases "list_sort (entry_field es k1) r1 ord") simp_all
  with assms have "list_sort (entry_field es k2) r2 mid = Inr ord'"
    by (cases "list_sort (entry_field es k2) r2 mid") simp_all
  with m that show ?thesis by blast
qed

lemma do_sort_loop_two_sorted:
  assumes "do_sort_loop [(k1, r1), (k2, r2)] es ord = Inr ord'"
  shows "sorted_wrt (\<lambda>a b. in_order r2 (field_of es k2 a) (field_of es k2 b) \<and>
            (ranks_equal (field_of es k2 a) (field_of es k2 b) \<longrightarrow>
               in_order r1 (field_of es k1 a) (field_of es k1 b))) ord'"
proof -
  from assms obtain mid where m1: "list_sort (entry_field es k1) r1 ord = Inr mid"
    and m2: "list_sort (entry_field es k2) r2 mid = Inr ord'"
    by (rule do_sort_loop_two)
  have "sorted_wrt (\<lambda>a b. in_order r1 (field_of es k1 a) (field_of es k1 b)) mid"
    using list_sort_sorted [OF m1] by (simp add: field_of_key_of)
  from list_sort_stable [OF m2 this] list_sort_sorted [OF m2]
  show ?thesis by (simp add: field_of_key_of sorted_wrt_conj)
qed

lemma do_sort_loop_two_stable:
  assumes "do_sort_loop [(k1, r1), (k2, r2)] es ord = Inr ord'" "sorted_wrt R ord"
  shows "sorted_wrt (\<lambda>a b. ranks_equal (field_of es k2 a) (field_of es k2 b) \<and>
            ranks_equal (field_of es k1 a) (field_of es k1 b) \<longrightarrow> R a b) ord'"
proof -
  from assms(1) obtain mid where m1: "list_sort (entry_field es k1) r1 ord = Inr mid"
    and m2: "list_sort (entry_field es k2) r2 mid = Inr ord'"
    by (rule do_sort_loop_two)
  from list_sort_stable [OF m2 list_sort_stable [OF m1 assms(2)]]
  have "sorted_wrt (\<lambda>a b. ranks_equal (field_of es k2 a) (field_of es k2 b) \<longrightarrow>
            ranks_equal (field_of es k1 a) (field_of es k1 b) \<longrightarrow> R a b) ord'"
    by (simp add: field_of_key_of)
  then show ?thesis by (rule sorted_wrt_mono_rel [rotated]) simp
qed

lemma set_sort_sorts:
  assumes "set_sort key rv s = Inr s'" "sorts s \<noteq> []"
  shows "sorts s' = [last (sorts s),
           (case key of None \<Rightarrow> fst (last (sorts s)) | Some k \<Rightarrow> k,
            case rv of None \<Rightarrow> snd (last (sorts s)) | Some r \<Rightarrow> r)]"
    "do_sort_loop (sorts s') (entries s) (order s) = Inr (order s')"
proof -
  from assms(1) obtain k r where
    k: "(case key of None \<Rightarrow> sort_key_prop s | Some k \<Rightarrow> Inr k) = Inr k"
    and r: "(case rv of None \<Rightarrow> sort_reversed s | Some r \<Rightarrow> Inr r) = Inr r"
    and d: "do_sort (s\<lparr>sorts := pop_excess (sorts s @ [(k, r)])\<rparr>) = Inr s'"
    by (rule set_sort_unfold)
  have k': "k = (case key of None \<Rightarrow> fst (last (sorts s)) | Some k \<Rightarrow> k)"
    using k assms(2) by (cases key) (simp_all add: sort_key_prop_def)
  have r': "r = (case rv of None \<Rightarrow> snd (last (sorts s)) | Some r \<Rightarrow> r)"
    using r assms(2) by (cases rv) (simp_all add: sort_reversed_def)
  have "sorts s' = pop_excess (sorts s @ [(k, r)])"
    using do_sort_fields(2) [OF d] by simp
  then show "sorts s' = [last (sorts s),
           (case key of None \<Rightarrow> fst (last (sorts s)) | Some k \<Rightarrow> k,
            case rv of None \<Rightarrow> snd (last (sorts s)) | Some r \<Rightarrow> r)]"
    using pop_excess_last2 [OF assms(2)] k' r' by simp
  show "do_sort_loop (sorts s') (entries s) (order s) = Inr (order s')"
    using do_sort_fields(2,5) [OF d] by simp
qed

lemma do_sort_loop_one_sorted:
  assumes "do_sort_loop [(k, r)] es ord = Inr ord'"
  shows "sorted_wrt (\<lambda>a b. in_order r (field_of es k a) (field_of es k b)) ord'"
proof -
  from assms have "list_sort (entry_field es k) r ord = Inr ord'"
    by (cases "list_sort (entry_field es k) r ord") simp_all
  from list_sort_sorted [OF this] show ?thesis by (simp add: field_of_key_of)
qed

subsection \<open>The polling loop\<close>

lemma fetch_fails:
  assumes "isl (torrents rd) \<or> isl (session rd) \<or> isl (stats rd)"
  shows "\<exists>e. fetch rd = Inl e"
proof (cases "torrents rd")
  case (Inl e)
  then show ?thesis by (simp add: fetch_def)
next
  case r: (Inr r)
  show ?thesis
  proof (cases "session rd")
    case (Inl e)
    then show ?thesis using r by (simp add: fetch_def)
  next
    case ses: (Inr ses)
    show ?thesis
    proof (cases "stats rd")
      case (Inl e)
      then show ?thesis using r ses by (simp add: fetch_def)
    next
      case (Inr st)
      with r ses assms show ?thesis by simp
    qed
  qed
qed

subsection \<open>The bridge\<close>

lemma called_append: "called (evs @ evs') = called evs @ called evs'"
  by (induction evs rule: called.induct) simp_all

lemma serial_snoc_started:
  "serial evs \<Longrightarrow> open_start evs = None \<Longrightarrow>
     serial (evs @ [Started n]) \<and> open_start (evs @ [Started n]) = Some n"
  by (induction evs rule: serial.induct) simp_all

lemma serial_snoc_called:
  "serial evs \<Longrightarrow> open_start evs = Some n \<Longrightarrow>
     serial (evs @ [Called n]) \<and> open_start (evs @ [Called n]) = None"
  by (induction evs rule: serial.induct) simp_all

lemma receive_idle:
  "raised b \<noteq> None \<or> running b \<noteq> None \<or> chan b = [] \<Longrightarrow> receive b = b"
  by (auto simp: receive_def)

lemma receive_next:
  assumes "raised b = None" "running b = None" "chan b = (n, w) # rest"
  shows "receive b = b\<lparr>chan := rest, running := Some (n, w), trace := trace b @ [Started n]\<rparr>"
  using assms by (simp add: receive_def)

lemma resume_idle: "raised b \<noteq> None \<or> running b = None \<Longrightarrow> resume b = b"
  by (auto simp: resume_def)

lemma resume_producer_raises:
  assumes "raised b = None" "running b = Some (n, w)" "func w = Inl e"
  shows "resume b = b\<lparr>running := None, raised := Some e\<rparr>"
  using assms by (simp add: resume_def)

lemma resume_callback_raises:
  assumes "raised b = None" "running b = Some (n, w)" "func w = Inr rv"
    "cb w rv (ui b) = Inl (e, u)"
  shows "resume b =
    b\<lparr>running := None, ui := u, raised := Some e, trace := trace b @ [Called n]\<rparr>"
  using assms by (simp add: resume_def)

lemma resume_callback_returns:
  assumes "raised b = None" "running b = Some (n, w)" "func w = Inr rv" "cb w rv (ui b) = Inr u"
  shows "resume b = b\<lparr>running := None, ui := u, trace := trace b @ [Called n]\<rparr>"
  using assms by (simp add: resume_def)

lemma fifo_invariant_init: "fifo_invariant (bridge_init u)"
  by (simp add: fifo_invariant_def bridge_init_def pending_def)

lemma fifo_invariantD:
  assumes "fifo_invariant b"
  shows "\<exists>sk. called (trace b) @ sk @ pending b = [0..<sent b] \<and> (raised b = None \<longrightarrow> sk = [])"
    "serial (trace b)"
    "raised b = None \<Longrightarrow> open_start (trace b) = map_option fst (running b)"
    "raised b \<noteq> None \<Longrightarrow> running b = None"
  using assms by (simp_all add: fifo_invariant_def)

lemma fifo_invariantI:
  assumes "called (trace b) @ sk @ pending b = [0..<sent b]" "raised b = None \<Longrightarrow> sk = []"
    "serial (trace b)"
    "raised b = None \<Longrightarrow> open_start (trace b) = map_option fst (running b)"
    "raised b \<noteq> None \<Longrightarrow> running b = None"
  shows "fifo_invariant b"
proof -
  have "\<exists>sk. called (trace b) @ sk @ pending b = [0..<sent b] \<and> (raised b = None \<longrightarrow> sk = [])"
    using assms(1,2) by (intro exI [of _ sk]) simp
  then show ?thesis using assms(3,4,5) by (simp add: fifo_invariant_def)
qed

lemma fifo_invariant_submit:
  assumes "fifo_invariant b"
  shows "fifo_invariant (call_async_function w b)"
proof -
  from fifo_invariantD(1) [OF assms] obtain sk where
    sk: "called (trace b) @ sk @ pending b = [0..<sent b]" "raised b = None \<longrightarrow> sk = []"
    by (elim exE conjE)
  let ?b = "call_async_function w b"
  have f: "trace ?b = trace b" "raised ?b = raised b" "running ?b = running b"
    "sent ?b = Suc (sent b)"
    by (simp_all add: call_async_function_def)
  have p: "pending ?b = pending b @ [sent b]"
    by (simp add: pending_def call_async_function_def)
  have "(called (trace b) @ sk @ pending b) @ [sent b] = [0..<sent b] @ [sent b]"
    by (simp only: sk(1))
  then have "called (trace ?b) @ sk @ pending ?b = [0..<sent ?b]"
    by (simp add: p f)
  then show ?thesis
  proof (rule fifo_invariantI)
    show "sk = []" if "raised ?b = None" using that sk(2) by (simp add: f)
    show "serial (trace ?b)" using fifo_invariantD(2) [OF assms] by (simp add: f)
    show "open_start (trace ?b) = map_option fst (running ?b)" if "raised ?b = None"
      using that fifo_invariantD(3) [OF assms] by (simp add: f)
    show "running ?b = None" if "raised ?b \<noteq> None"
      using that fifo_invariantD(4) [OF assms] by (simp add: f)
  qed
qed

lemma fifo_invariant_receive:
  assumes "fifo_invariant b"
  shows "fifo_invariant (receive b)"
proof (cases "raised b \<noteq> None \<or> running b \<noteq> None \<or> chan b = []")
  case True
  then show ?thesis using assms by (simp add: receive_idle)
next
  case False
  then have r: "raised b = None" "running b = None" "chan b \<noteq> []"
    by (cases "running b"; simp)+
  then obtain p rest where pr: "chan b = p # rest" by (cases "chan b") simp_all
  obtain n w where "p = (n, w)" by (cases p)
  with r pr have c: "raised b = None" "running b = None" "chan b = (n, w) # rest"
    by simp_all
  let ?b = "b\<lparr>chan := rest, running := Some (n, w), trace := trace b @ [Started n]\<rparr>"
  from fifo_invariantD(1) [OF assms] c(1) have
    sk: "called (trace b) @ [] @ pending b = [0..<sent b]"
    by auto
  have p: "pending ?b = pending b" using c by (simp add: pending_def)
  have o: "open_start (trace b) = None" using fifo_invariantD(3) [OF assms c(1)] c(2) by simp
  note s = serial_snoc_started [OF fifo_invariantD(2) [OF assms] o, of n]
  have "fifo_invariant ?b"
  proof (rule fifo_invariantI [where sk = "[]"])
    show "called (trace ?b) @ [] @ pending ?b = [0..<sent ?b]"
      using sk by (simp add: p called_append)
    show "serial (trace ?b)" using s by simp
    show "open_start (trace ?b) = map_option fst (running ?b)" using s by simp
    show "running ?b = None" if "raised ?b \<noteq> None" using that c(1) by simp
  qed simp
  then show ?thesis by (simp add: receive_next [OF c])
qed

lemma fifo_invariant_resume:
  assumes "fifo_invariant b"
  shows "fifo_invariant (resume b)"
proof (cases "raised b \<noteq> None \<or> running b = None")
  case True
  then show ?thesis using assms by (simp add: resume_idle)
next
  case False
  then have r: "raised b = None" "running b \<noteq> None" by simp_all
  then obtain p where pr: "running b = Some p" by (cases "running b") simp_all
  obtain n w where "p = (n, w)" by (cases p)
  with r pr have c: "raised b = None" "running b = Some (n, w)" by simp_all
  have p: "pending b = n # map fst (chan b)" using c by (simp add: pending_def)
  from fifo_invariantD(1) [OF assms] c(1) have
    sk: "called (trace b) @ n # map fst (chan b) = [0..<sent b]"
    by (auto simp: p)
  have q: "pending (b\<lparr>running := None, ui := z, raised := x, trace := y\<rparr>) = map fst (chan b)"
    "pending (b\<lparr>running := None, raised := x\<rparr>) = map fst (chan b)"
    "pending (b\<lparr>running := None, ui := z, trace := y\<rparr>) = map fst (chan b)" for x y z
    by (simp_all add: pending_def)
  have o: "open_start (trace b) = Some n" using fifo_invariantD(3) [OF assms c(1)] c(2) by simp
  note s = serial_snoc_called [OF fifo_invariantD(2) [OF assms] o]
  show ?thesis
  proof (cases "func w")
    case (Inl e)
    let ?b = "b\<lparr>running := None, raised := Some e\<rparr>"
    have "fifo_invariant ?b"
    proof (rule fifo_invariantI [where sk = "[n]"])
      show "called (trace ?b) @ [n] @ pending ?b = [0..<sent ?b]"
        using sk by (simp add: q)
      show "serial (trace ?b)" using fifo_invariantD(2) [OF assms] by simp
    qed simp_all
    then show ?thesis by (simp add: resume_producer_raises [OF c Inl])
  next
    case (Inr rv)
    show ?thesis
    proof (cases "cb w rv (ui b)")
      case (Inl eu)
      obtain e u where eu: "eu = (e, u)" by (cases eu)
      with Inl have raises: "cb w rv (ui b) = Inl (e, u)" by simp
      let ?b = "b\<lparr>running := None, ui := u, raised := Some e, trace := trace b @ [Called n]\<rparr>"
      have "fifo_invariant ?b"
      proof (rule fifo_invariantI [where sk = "[]"])
        show "called (trace ?b) @ [] @ pending ?b = [0..<sent ?b]"
          using sk by (simp add: q called_append)
        show "serial (trace ?b)" using s by simp
      qed simp_all
      then show ?thesis by (simp add: resume_callback_raises [OF c Inr raises])
    next
      case u: (Inr u)
      let ?b = "b\<lparr>running := None, ui := u, trace := trace b @ [Called n]\<rparr>"
      have "fifo_invariant ?b"
      proof (rule fifo_invariantI [where sk = "[]"])
        show "called (trace ?b) @ [] @ pending ?b = [0..<sent ?b]"
          using sk by (simp add: q called_append)
        show "serial (trace ?b)" using s by simp
        show "open_start (trace ?b) = map_option fst (running ?b)" using s by simp
        show "running ?b = None" by simp
      qed simp
      then show ?thesis by (simp add: resume_callback_returns [OF c Inr u])
    qed
  qed
qed

lemma fifo_invariant_step: "fifo_invariant b \<Longrightarrow> fifo_invariant (bridge_step b a)"
  by (cases a) (simp_all add: fifo_invariant_submit fifo_invariant_receive fifo_invariant_resume)

lemma fifo_invariant_run: "fifo_invariant b \<Longrightarrow> fifo_invariant (run acts b)"
  unfolding run_def by (induction acts arbitrary: b) (simp_all add: fifo_invariant_step)


lemma run_Nil: "run [] b = b"
  by (simp add: run_def)

lemma run_Cons: "run (a # acts) b = run acts (bridge_step b a)"
  by (simp add: run_def)

lemma drain_Suc: "drain (Suc n) = Receive # Resume # drain n"
  by (simp add: drain_def)

lemma never_raisesD:
  assumes "never_raises w"
  shows "\<exists>rv. func w = Inr rv \<and> (\<forall>u. \<exists>u'. cb w rv u = Inr u')"
proof -
  from assms obtain rv where rv: "func w = Inr rv" and c: "\<forall>u. \<not> isl (cb w rv u)"
    by (cases "func w") (simp_all add: never_raises_def)
  have "\<exists>u'. cb w rv u = Inr u'" for u
    using c by (cases "cb w rv u") (auto simp: isl_def)
  with rv show ?thesis by simp
qed

lemma resume_served:
  assumes "raised b = None" "running b = Some (n, w)" "never_raises w"
  shows "raised (resume b) = None" "running (resume b) = None" "chan (resume b) = chan b"
    "trace (resume b) = trace b @ [Called n]" "sent (resume b) = sent b"
proof -
  from never_raisesD [OF assms(3)] obtain rv where rv: "func w = Inr rv"
    and c: "\<forall>u. \<exists>u'. cb w rv u = Inr u'"
    by (elim exE conjE)
  from c obtain u' where u': "cb w rv (ui b) = Inr u'" by blast
  note r = resume_callback_returns [OF assms(1,2) rv u']
  show "raised (resume b) = None" using assms(1) by (simp add: r)
  show "running (resume b) = None" by (simp add: r)
  show "chan (resume b) = chan b" by (simp add: r)
  show "trace (resume b) = trace b @ [Called n]" by (simp add: r)
  show "sent (resume b) = sent b" by (simp add: r)
qed

lemma drain_serves_channel:
  "raised b = None \<Longrightarrow> running b = None \<Longrightarrow> chan b = items \<Longrightarrow>
   list_all never_raises (map snd items) \<Longrightarrow>
     called (trace (run (drain (length items)) b)) = called (trace b) @ map fst items"
proof (induction items arbitrary: b)
  case Nil
  then show ?case by (simp add: drain_def run_Nil)
next
  case (Cons p items)
  obtain n w where p: "p = (n, w)" by (cases p)
  let ?b1 = "receive b"
  have c: "chan b = (n, w) # items" using Cons.prems(3) p by simp
  note rn = receive_next [OF Cons.prems(1,2) c]
  have b1: "raised ?b1 = None" "running ?b1 = Some (n, w)" "chan ?b1 = items"
    "trace ?b1 = trace b @ [Started n]"
    using Cons.prems(1) by (simp_all add: rn)
  have nw: "never_raises w" using Cons.prems(4) p by simp
  note rs = resume_served [OF b1(1,2) nw]
  have "called (trace (run (drain (length items)) (resume ?b1)))
      = called (trace (resume ?b1)) @ map fst items"
    using Cons.prems(4) rs(1,2,3) b1(3) by (intro Cons.IH) simp_all
  then show ?case
    by (simp add: drain_Suc run_Cons rs(4) b1(4) called_append p)
qed

lemma drain_serves_pending:
  assumes "raised b = None" "list_all never_raises (pending_work b)"
  shows "called (trace (run (Resume # drain (length (chan b))) b)) = called (trace b) @ pending b"
proof (cases "running b")
  case None
  then have "resume b = b" by (simp add: resume_idle)
  moreover have "list_all never_raises (map snd (chan b))"
    using assms(2) None by (simp add: pending_work_def)
  ultimately show ?thesis
    using drain_serves_channel [OF assms(1) None refl] None
    by (simp add: run_Cons pending_def)
next
  case (Some p)
  obtain n w where p: "p = (n, w)" by (cases p)
  with Some have r: "running b = Some (n, w)" by simp
  have nw: "never_raises w" and rest: "list_all never_raises (map snd (chan b))"
    using assms(2) r by (simp_all add: pending_work_def)
  note rs = resume_served [OF assms(1) r nw]
  have "called (trace (run (drain (length (chan b))) (resume b)))
      = called (trace (resume b)) @ map fst (chan b)"
    using rs(1,2,3) rest by (intro drain_serves_channel) simp_all
  then show ?thesis using r by (simp add: run_Cons rs(4) called_append pending_def)
qed

lemma prefix_of_upt:
  assumes "xs @ ys = [0..<n]"
  shows "length xs \<le> n \<and> xs = [0..<length xs]"
proof -
  have l: "length xs \<le> n" using arg_cong [OF assms, of length] by simp
  have "xs = take (length xs) (xs @ ys)" by simp
  also have "\<dots> = take (length xs) [0..<n]" by (simp only: assms)
  also have "\<dots> = [0..<length xs]" using l by (simp add: take_upt)
  finally show ?thesis using l by simp
qed

lemma run_after_exception:
  "raised b = Some e \<Longrightarrow>
     raised (run acts b) = Some e \<and> trace (run acts b) = trace b \<and> ui (run acts b) = ui b"
proof (induction acts arbitrary: b)
  case Nil
  then show ?case by (simp add: run_Nil)
next
  case (Cons a acts)
  have "raised (bridge_step b a) = Some e \<and> trace (bridge_step b a) = trace b \<and>
      ui (bridge_step b a) = ui b"
    using Cons.prems
    by (cases a) (simp_all add: call_async_function_def receive_idle resume_idle)
  with Cons.IH [of "bridge_step b a"] show ?case by (simp add: run_Cons)
qed

lemmas bridge_eval =
  run_def bridge_init_def call_async_function_def receive_def resume_def
  good_work_def failing_work_def bad_callback_work_def

lemma example_run_result:
  "run example_run (bridge_init []) =
     \<lparr>chan = [(1, good_work 20), (2, good_work 30)], sent = 3, running = None, ui = [10],
      raised = None, trace = [Started 0, Called 0]\<rparr>"
  by (simp add: example_run_def bridge_eval)

subsection \<open>Records with the same identifier\<close>

lemma find_snoc:
  "find P (xs @ [x]) = (case find P xs of None \<Rightarrow> if P x then Some x else None | Some y \<Rightarrow> Some y)"
  by (induction xs) simp_all

lemma build_entries_last:
  "build_entries mk tlist d = Inr es \<Longrightarrow>
     map_option fst (map_of es k) =
       (case find (\<lambda>t. t ''id'' = Some k) (rev tlist) of
          None \<Rightarrow> map_option fst (map_of d k)
        | Some t \<Rightarrow> Some t)"
proof (induction tlist arbitrary: d)
  case Nil
  then show ?case by simp
next
  case (Cons i rest)
  from Cons.prems obtain k0 w where k0: "i ''id'' = Some k0"
    and rest: "build_entries mk rest (dict_set k0 (i, w) d) = Inr es"
    by (auto simp: getitem_def split: option.splits sum.splits if_splits)
  show ?case
    using Cons.IH [OF rest] k0
    by (auto simp: find_snoc map_of_dict_set split: option.splits)
qed

lemma set_entries_last:
  assumes "set_entries mk tlist s = Inr s'"
  shows "map_option fst (map_of (entries s') k) = find (\<lambda>t. t ''id'' = Some k) (rev tlist)"
  using build_entries_last [OF set_entries_fields(1) [OF assms], of k]
  by (simp split: option.splits)

subsection \<open>The example data\<close>

lemma example_torrent_fields:
  "example_torrent i n sz ''id'' = Some (PNum i)"
  "example_torrent i n sz ''name'' = Some (PStr n)"
  "example_torrent i n sz ''sizeWhenDone'' = Some (PNum sz)"
  by (simp_all add: example_torrent_def)

lemma plain_entry_example: "plain_entry (example_torrent i n sz) = Inr (example_torrent i n sz)"
  by (simp add: plain_entry_def entry_fields_def example_torrent_def)

lemmas walker_eval =
  set_entries_def set_sort_def do_sort_def list_sort_def sort_pairs_def stable_sort_def
  key_lt_def comparable_keys_def entry_field_def getitem_def sort_key_prop_def
  sort_reversed_def pop_excess.simps

lemma example_set_entries:
  "set_entries plain_entry example_list walker_init = Inr example_walker"
  by (simp add: walker_eval example_list_def example_walker_def walker_init_def
      example_torrent_fields plain_entry_example)

lemma example_set_entries_again:
  "set_entries plain_entry example_list example_walker = Inr example_walker"
  by (simp add: walker_eval example_list_def example_walker_def
      example_torrent_fields plain_entry_example)

lemma example_set_entries_empty:
  "set_entries plain_entry [] example_walker =
     Inr \<lparr>entries = [], order = [], sorts = [(''name'', False)], focus = PNone\<rparr>"
  by (simp add: walker_eval example_walker_def)

lemma example_set_sort:
  "set_sort (Some ''sizeWhenDone'') None example_walker =
     Inr (example_walker\<lparr>sorts := [(''name'', False), (''sizeWhenDone'', False)],
                         order := [PNum 3, PNum 2, PNum 1]\<rparr>)"
  by (simp add: walker_eval example_walker_def example_torrent_fields)

lemma example_well_formed: "well_formed plain_entry [(''name'', False)] example_list"
  by (simp add: well_formed_def sortable_by_def field_is_def example_list_def
      example_torrent_fields plain_entry_example)

lemma example_set_sort_reverse:
  "set_sort None (Some True) example_walker =
     Inr (example_walker\<lparr>sorts := [(''name'', False), (''name'', True)],
                         order := [PNum 1, PNum 2, PNum 3]\<rparr>)"
  by (simp add: walker_eval example_walker_def example_torrent_fields)

lemma duplicate_list_result:
  "set_entries plain_entry duplicate_list walker_init =
     Inr \<lparr>entries = [(PNum 7, example_torrent 7 ''y'' 2, example_torrent 7 ''y'' 2)],
          order = [PNum 7], sorts = [(''name'', False)], focus = PNum 7\<rparr>"
  by (simp add: walker_eval duplicate_list_def walker_init_def
      example_torrent_fields plain_entry_example)

lemma example_history_sortable:
  "history_sortable example_walker" "holds_sortable example_walker ''sizeWhenDone''"
  by (simp_all add: history_sortable_def holds_sortable_def sortable_by_def field_is_def
      example_walker_def example_torrent_fields)

section \<open>The list walker\<close>

text \<open>
  Claim C1. For every well-formed raw list \<^verbatim>\<open>set_entries\<close> completes, and whenever it
  completes \<open>order\<close> has no duplicates and holds exactly the keys of \<open>entries\<close>, which are
  the identifiers of the list. Every \<^verbatim>\<open>set_sort\<close> that completes on a state with this
  property keeps the property and the entries: \<open>order\<close> is always a permutation of the
  keys. A \<^verbatim>\<open>set_sort\<close> completes when the torrents held can be sorted by the history and
  by the new key.
\<close>

theorem order_permutation_of_keys:
  "(well_formed mk (sorts s) tlist \<longrightarrow>
      (\<exists>s'. set_entries mk tlist s = Inr s' \<and> order_is_permutation s')) \<and>
   (set_entries mk tlist s = Inr s' \<longrightarrow>
      order_is_permutation s' \<and> set (order s') = set (ids_of tlist)) \<and>
   (order_is_permutation s0 \<and> set_sort key rv s0 = Inr s1 \<longrightarrow>
      order_is_permutation s1 \<and> entries s1 = entries s0) \<and>
   (order_is_permutation s0 \<and> history_sortable s0 \<and>
    (\<forall>k. key = Some k \<longrightarrow> holds_sortable s0 k) \<longrightarrow>
      (\<exists>s1. set_sort key rv s0 = Inr s1))"
proof -
  have "\<exists>s1. set_sort key rv s0 = Inr s1"
    if "order_is_permutation s0 \<and> history_sortable s0 \<and>
      (\<forall>k. key = Some k \<longrightarrow> holds_sortable s0 k)"
  proof -
    from that have "set (order s0) \<subseteq> fst ` set (entries s0)"
      by (simp add: order_is_permutation_def)
    with that show ?thesis by (intro set_sort_total) simp_all
  qed
  then show ?thesis
    using set_entries_total [of mk s tlist] set_entries_permutation [of mk tlist s]
      set_sort_permutation [of s0 key rv s1]
    by blast
qed

theorem order_permutation_of_keys_witness:
  "well_formed plain_entry (sorts (walker_init :: torrent walker)) example_list \<and>
   set_entries plain_entry example_list walker_init = Inr example_walker \<and>
   order_is_permutation example_walker \<and>
   set (order example_walker) = set (ids_of example_list) \<and>
   set_sort (Some ''sizeWhenDone'') None example_walker =
     Inr (example_walker\<lparr>sorts := [(''name'', False), (''sizeWhenDone'', False)],
                         order := [PNum 3, PNum 2, PNum 1]\<rparr>) \<and>
   order_is_permutation
     (example_walker\<lparr>sorts := [(''name'', False), (''sizeWhenDone'', False)],
                     order := [PNum 3, PNum 2, PNum 1]\<rparr>) \<and>
   history_sortable example_walker \<and> holds_sortable example_walker ''sizeWhenDone''"
proof -
  have wf: "well_formed plain_entry (sorts (walker_init :: torrent walker)) example_list"
    using example_well_formed by (simp add: walker_init_def)
  note inst = order_permutation_of_keys [of plain_entry walker_init example_list example_walker
      example_walker "Some ''sizeWhenDone''" None
      "example_walker\<lparr>sorts := [(''name'', False), (''sizeWhenDone'', False)],
                      order := [PNum 3, PNum 2, PNum 1]\<rparr>"]
  from inst example_set_entries have p: "order_is_permutation example_walker"
    and i: "set (order example_walker) = set (ids_of example_list)"
    by blast+
  from inst p example_set_sort have
    "order_is_permutation
       (example_walker\<lparr>sorts := [(''name'', False), (''sizeWhenDone'', False)],
                       order := [PNum 3, PNum 2, PNum 1]\<rparr>)"
    by blast
  with wf example_set_entries p i example_set_sort example_history_sortable
  show ?thesis by blast
qed

text \<open>
  Claim C2. When \<^verbatim>\<open>set_entries\<close> completes: a focus that is among the identifiers of the
  new list is kept; otherwise, for a non-empty list, the focus is the first element of the
  new sorted order; for the empty list the focus is none.
\<close>

theorem focus_after_set_entries:
  assumes "set_entries mk tlist s = Inr s'"
  shows "(focus s \<in> set (ids_of tlist) \<longrightarrow> focus s' = focus s) \<and>
    (focus s \<notin> set (ids_of tlist) \<and> tlist \<noteq> [] \<longrightarrow> order s' \<noteq> [] \<and> focus s' = hd (order s')) \<and>
    (tlist = [] \<longrightarrow> focus s' = PNone)"
proof -
  define es ord where "es = entries s'" and "ord = order s'"
  note f = set_entries_fields [OF assms]
  have es: "build_entries mk tlist [] = Inr es"
    and s': "order s' = ord"
      "focus s' = (if ord = [] then PNone else if focus s \<notin> set ord then hd ord else focus s)"
    using f(1,4) by (simp_all add: es_def ord_def)
  from set_entries_permutation [OF assms] s' have ids: "set ord = set (ids_of tlist)" by simp
  have ne: "ord \<noteq> []" if "tlist \<noteq> []"
  proof -
    from that obtain t rest where "tlist = t # rest" by (cases tlist) auto
    with es obtain k where "t ''id'' = Some k"
      by (auto simp: getitem_def split: option.splits)
    then have "k \<in> set (ids_of tlist)" using \<open>tlist = t # rest\<close> by (auto simp: ids_of_set)
    with ids show ?thesis by auto
  qed
  have emp: "ord = []" if "tlist = []"
    using ids that by (simp add: ids_of_def)
  show ?thesis using s' ids ne emp by auto
qed

theorem focus_after_set_entries_witness:
  "set_entries plain_entry example_list example_walker = Inr example_walker \<and>
   focus example_walker \<in> set (ids_of example_list) \<and>
   focus example_walker = PNum 2 \<and>
   set_entries plain_entry example_list walker_init = Inr example_walker \<and>
   focus (walker_init :: torrent walker) \<notin> set (ids_of example_list) \<and>
   example_list \<noteq> [] \<and>
   focus example_walker = hd (order example_walker) \<and>
   set_entries plain_entry [] example_walker =
     Inr \<lparr>entries = [], order = [], sorts = [(''name'', False)], focus = PNone\<rparr>"
proof -
  have a: "focus example_walker \<in> set (ids_of example_list)"
    "focus (walker_init :: torrent walker) \<notin> set (ids_of example_list)"
    "example_list \<noteq> []" "focus example_walker = PNum 2"
    by (simp_all add: example_walker_def walker_init_def ids_of_def example_list_def
        example_torrent_fields)
  from focus_after_set_entries [OF example_set_entries] a
  have "focus example_walker = hd (order example_walker)" by blast
  moreover from focus_after_set_entries [OF example_set_entries_again] a
  have "focus example_walker = focus example_walker" by blast
  moreover from focus_after_set_entries [OF example_set_entries_empty]
  have "focus \<lparr>entries = [], order = [], sorts = [(''name'', False)], focus = PNone\<rparr> = PNone"
    by simp
  ultimately show ?thesis
    using a example_set_entries example_set_entries_again example_set_entries_empty by blast
qed

text \<open>
  Claim C3. \<^verbatim>\<open>set_sort\<close> on a walker whose newest criterion is \<open>(k1, r1)\<close> leaves the
  history \<open>[(k1, r1), (k2, r2)]\<close> and applies it oldest first with a stable sort: the new
  order is sorted by \<open>k2\<close> in direction \<open>r2\<close>; elements that \<open>k2\<close> ranks equal are sorted by
  \<open>k1\<close> in direction \<open>r1\<close>; elements that both rank equal keep the order they had. For the
  records 1 (b, 5), 2 (a, 5), 3 (a, 3) the calls for size ascending and then name ascending
  give the order 3, 2, 1, from the order by name that \<^verbatim>\<open>set_entries\<close> leaves as well as
  from the order 1, 2, 3 of the list.
\<close>

theorem newest_criterion_dominates:
  "(sorts s \<noteq> [] \<and> last (sorts s) = (k1, r1) \<and> set_sort (Some k2) (Some r2) s = Inr s' \<longrightarrow>
      sorts s' = [(k1, r1), (k2, r2)] \<and>
      sorted_wrt (\<lambda>a b. in_order r2 (field_of (entries s') k2 a) (field_of (entries s') k2 b) \<and>
                  (ranks_equal (field_of (entries s') k2 a) (field_of (entries s') k2 b) \<longrightarrow>
                     in_order r1 (field_of (entries s') k1 a) (field_of (entries s') k1 b)))
        (order s') \<and>
      (sorted_wrt R (order s) \<longrightarrow>
         sorted_wrt (\<lambda>a b. ranks_equal (field_of (entries s') k2 a) (field_of (entries s') k2 b) \<and>
                     ranks_equal (field_of (entries s') k1 a) (field_of (entries s') k1 b) \<longrightarrow> R a b)
           (order s'))) \<and>
   set_sort (Some ''size'') (Some False) sort_example =
     Inr (sort_example\<lparr>sorts := [(''name'', False), (''size'', False)],
                       order := [PNum 3, PNum 2, PNum 1]\<rparr>) \<and>
   set_sort (Some ''name'') (Some False)
       (sort_example\<lparr>sorts := [(''name'', False), (''size'', False)],
                      order := [PNum 3, PNum 2, PNum 1]\<rparr>) =
     Inr (sort_example\<lparr>sorts := [(''size'', False), (''name'', False)],
                       order := [PNum 3, PNum 2, PNum 1]\<rparr>) \<and>
   set_sort (Some ''size'') (Some False) (sort_example\<lparr>order := [PNum 1, PNum 2, PNum 3]\<rparr>) =
     Inr (sort_example\<lparr>sorts := [(''name'', False), (''size'', False)],
                       order := [PNum 3, PNum 2, PNum 1]\<rparr>)"
proof (intro conjI impI)
  assume a: "sorts s \<noteq> [] \<and> last (sorts s) = (k1, r1) \<and> set_sort (Some k2) (Some r2) s = Inr s'"
  then have ss: "set_sort (Some k2) (Some r2) s = Inr s'" and ne: "sorts s \<noteq> []"
    and l: "last (sorts s) = (k1, r1)"
    by simp_all
  from set_sort_sorts(1) [OF ss ne] l show srt: "sorts s' = [(k1, r1), (k2, r2)]" by simp
  have e: "entries s' = entries s" by (rule set_sort_fields(1) [OF ss])
  from set_sort_sorts(2) [OF ss ne] srt
  have loop: "do_sort_loop [(k1, r1), (k2, r2)] (entries s') (order s) = Inr (order s')"
    by (simp add: e)
  from do_sort_loop_two_sorted [OF loop]
  show "sorted_wrt (\<lambda>a b. in_order r2 (field_of (entries s') k2 a) (field_of (entries s') k2 b) \<and>
                  (ranks_equal (field_of (entries s') k2 a) (field_of (entries s') k2 b) \<longrightarrow>
                     in_order r1 (field_of (entries s') k1 a) (field_of (entries s') k1 b)))
        (order s')" .
  assume "sorted_wrt R (order s)"
  from do_sort_loop_two_stable [OF loop this]
  show "sorted_wrt (\<lambda>a b. ranks_equal (field_of (entries s') k2 a) (field_of (entries s') k2 b) \<and>
                     ranks_equal (field_of (entries s') k1 a) (field_of (entries s') k1 b) \<longrightarrow> R a b)
           (order s')" .
next
  show "set_sort (Some ''size'') (Some False) sort_example =
     Inr (sort_example\<lparr>sorts := [(''name'', False), (''size'', False)],
                       order := [PNum 3, PNum 2, PNum 1]\<rparr>)"
    by (simp add: walker_eval sort_example_def)
next
  show "set_sort (Some ''name'') (Some False)
       (sort_example\<lparr>sorts := [(''name'', False), (''size'', False)],
                      order := [PNum 3, PNum 2, PNum 1]\<rparr>) =
     Inr (sort_example\<lparr>sorts := [(''size'', False), (''name'', False)],
                       order := [PNum 3, PNum 2, PNum 1]\<rparr>)"
    by (simp add: walker_eval sort_example_def)
next
  show "set_sort (Some ''size'') (Some False)
       (sort_example\<lparr>order := [PNum 1, PNum 2, PNum 3]\<rparr>) =
     Inr (sort_example\<lparr>sorts := [(''name'', False), (''size'', False)],
                       order := [PNum 3, PNum 2, PNum 1]\<rparr>)"
    by (simp add: walker_eval sort_example_def)
qed


theorem newest_criterion_dominates_witness:
  "sorts sort_example \<noteq> [] \<and> last (sorts sort_example) = (''name'', False) \<and>
   set_sort (Some ''size'') (Some False) sort_example =
     Inr (sort_example\<lparr>sorts := [(''name'', False), (''size'', False)],
                       order := [PNum 3, PNum 2, PNum 1]\<rparr>) \<and>
   sorted_wrt (\<lambda>a b. in_order False (field_of (entries sort_example) ''size'' a)
                                    (field_of (entries sort_example) ''size'' b) \<and>
                (ranks_equal (field_of (entries sort_example) ''size'' a)
                             (field_of (entries sort_example) ''size'' b) \<longrightarrow>
                   in_order False (field_of (entries sort_example) ''name'' a)
                                  (field_of (entries sort_example) ''name'' b)))
     [PNum 3, PNum 2, PNum 1]"
proof -
  have h: "sorts sort_example \<noteq> []" "last (sorts sort_example) = (''name'', False)"
    by (simp_all add: sort_example_def)
  note inst = newest_criterion_dominates [where s = sort_example and ?k1.0 = "''name''"
      and ?r1.0 = False and ?k2.0 = "''size''" and ?r2.0 = False and R = "\<lambda>a b. True"
      and s' = "sort_example\<lparr>sorts := [(''name'', False), (''size'', False)],
                              order := [PNum 3, PNum 2, PNum 1]\<rparr>"]
  from inst have ev: "set_sort (Some ''size'') (Some False) sort_example =
     Inr (sort_example\<lparr>sorts := [(''name'', False), (''size'', False)],
                       order := [PNum 3, PNum 2, PNum 1]\<rparr>)"
    by blast
  from inst h ev have
    "sorted_wrt (\<lambda>a b. in_order False (field_of (entries sort_example) ''size'' a)
                                    (field_of (entries sort_example) ''size'' b) \<and>
                (ranks_equal (field_of (entries sort_example) ''size'' a)
                             (field_of (entries sort_example) ''size'' b) \<longrightarrow>
                   in_order False (field_of (entries sort_example) ''name'' a)
                                  (field_of (entries sort_example) ''name'' b)))
     [PNum 3, PNum 2, PNum 1]"
    by simp
  with h ev show ?thesis by blast
qed

text \<open>
  Claim C10. A new walker has the sort history \<open>[(name, False)]\<close>. The first
  \<^verbatim>\<open>set_entries\<close> therefore leaves the torrents ordered by their name, ascending, and a
  first \<^verbatim>\<open>set_sort\<close> takes \<open>name\<close> for a missing key and \<open>False\<close> for a missing direction.
\<close>

theorem initial_sort_by_name:
  "sorts (walker_init :: 'w walker) = [(''name'', False)] \<and>
   (set_entries mk tlist (walker_init :: 'w walker) = Inr s' \<longrightarrow>
      sorts s' = [(''name'', False)] \<and>
      sorted_wrt (\<lambda>a b. in_order False (field_of (entries s') ''name'' a)
                                       (field_of (entries s') ''name'' b)) (order s')) \<and>
   (sorts s = [(''name'', False)] \<and> set_sort key rv s = Inr s1 \<longrightarrow>
      sorts s1 = [(''name'', False),
                  (case key of None \<Rightarrow> ''name'' | Some k \<Rightarrow> k,
                   case rv of None \<Rightarrow> False | Some r \<Rightarrow> r)])"
proof (intro conjI impI)
  show i: "sorts (walker_init :: 'w walker) = [(''name'', False)]"
    by (simp add: walker_init_def)
  {
    assume a: "set_entries mk tlist (walker_init :: 'w walker) = Inr s'"
    from set_entries_fields(3) [OF a] i show "sorts s' = [(''name'', False)]" by simp
    from set_entries_fields(5) [OF a] i
    have "do_sort_loop [(''name'', False)] (entries s') (map fst (entries s')) = Inr (order s')"
      by simp
    then show "sorted_wrt (\<lambda>a b. in_order False (field_of (entries s') ''name'' a)
                                       (field_of (entries s') ''name'' b)) (order s')"
      by (rule do_sort_loop_one_sorted)
  }
  assume "sorts s = [(''name'', False)] \<and> set_sort key rv s = Inr s1"
  then have s: "sorts s = [(''name'', False)]" and ss: "set_sort key rv s = Inr s1" by simp_all
  from s have "sorts s \<noteq> []" by simp
  from set_sort_sorts(1) [OF ss this] s
  show "sorts s1 = [(''name'', False),
                  (case key of None \<Rightarrow> ''name'' | Some k \<Rightarrow> k,
                   case rv of None \<Rightarrow> False | Some r \<Rightarrow> r)]"
    by (simp split: option.splits)
qed

theorem initial_sort_by_name_witness:
  "set_entries plain_entry example_list walker_init = Inr example_walker \<and>
   sorts example_walker = [(''name'', False)] \<and>
   order example_walker = [PNum 2, PNum 3, PNum 1] \<and>
   sorted_wrt (\<lambda>a b. in_order False (field_of (entries example_walker) ''name'' a)
                                    (field_of (entries example_walker) ''name'' b))
     (order example_walker) \<and>
   set_sort None (Some True) example_walker =
     Inr (example_walker\<lparr>sorts := [(''name'', False), (''name'', True)],
                         order := [PNum 1, PNum 2, PNum 3]\<rparr>) \<and>
   sorts (example_walker\<lparr>sorts := [(''name'', False), (''name'', True)],
                         order := [PNum 1, PNum 2, PNum 3]\<rparr>) =
     [(''name'', False), (''name'', True)] \<and>
   set_sort (Some ''sizeWhenDone'') None example_walker =
     Inr (example_walker\<lparr>sorts := [(''name'', False), (''sizeWhenDone'', False)],
                         order := [PNum 3, PNum 2, PNum 1]\<rparr>)"
proof -
  have s: "sorts example_walker = [(''name'', False)]"
    "order example_walker = [PNum 2, PNum 3, PNum 1]"
    by (simp_all add: example_walker_def)
  from initial_sort_by_name [where mk = plain_entry and tlist = example_list
      and s' = example_walker and s = example_walker and key = None and rv = "Some True"
      and ?s1.0 = "example_walker\<lparr>sorts := [(''name'', False), (''name'', True)],
                                  order := [PNum 1, PNum 2, PNum 3]\<rparr>"]
    example_set_entries example_set_sort_reverse s
  have "sorted_wrt (\<lambda>a b. in_order False (field_of (entries example_walker) ''name'' a)
                                    (field_of (entries example_walker) ''name'' b))
     (order example_walker)"
    and "sorts (example_walker\<lparr>sorts := [(''name'', False), (''name'', True)],
                         order := [PNum 1, PNum 2, PNum 3]\<rparr>) =
     [(''name'', False), (''name'', True)]"
    by simp_all
  with s example_set_entries example_set_sort_reverse example_set_sort show ?thesis by blast
qed

text \<open>
  Claim C8 says that a raw list with two records of the same identifier is rejected as a
  data error. It is not: \<^verbatim>\<open>set_entries\<close> completes on the list \<open>duplicate_list\<close>, whose two
  records have the identifier 7, and keeps the second one.
\<close>

theorem duplicate_ids_counterexample:
  "\<not> distinct (ids_of duplicate_list) \<and>
   set_entries plain_entry duplicate_list walker_init =
     Inr \<lparr>entries = [(PNum 7, example_torrent 7 ''y'' 2, example_torrent 7 ''y'' 2)],
          order = [PNum 7], sorts = [(''name'', False)], focus = PNum 7\<rparr>"
  using duplicate_list_result
  by (simp add: ids_of_def duplicate_list_def example_torrent_fields)

text \<open>
  Claim C8, amended. A raw list with records of the same identifier is not rejected:
  \<^verbatim>\<open>set_entries\<close> completes on it when it is well formed otherwise, every identifier stands
  once in \<open>order\<close>, and the torrent kept for an identifier is the last record of the list
  with that identifier.
\<close>

theorem duplicate_ids_last_wins:
  "(well_formed mk (sorts s) tlist \<and> \<not> distinct (ids_of tlist) \<longrightarrow>
      (\<exists>s'. set_entries mk tlist s = Inr s')) \<and>
   (set_entries mk tlist s = Inr s' \<longrightarrow>
      distinct (order s') \<and> set (order s') = set (ids_of tlist) \<and>
      (\<forall>k. map_option fst (map_of (entries s') k) = find (\<lambda>t. t ''id'' = Some k) (rev tlist)))"
proof (intro conjI impI allI)
  assume "well_formed mk (sorts s) tlist \<and> \<not> distinct (ids_of tlist)"
  then show "\<exists>s'. set_entries mk tlist s = Inr s'" by (simp add: set_entries_total)
next
  assume a: "set_entries mk tlist s = Inr s'"
  from set_entries_permutation [OF a] have p: "order_is_permutation s'"
    and i: "set (order s') = set (ids_of tlist)"
    by (rule conjunct1, rule conjunct2)
  from p show "distinct (order s')" by (simp add: order_is_permutation_def)
  from i show "set (order s') = set (ids_of tlist)" .
  show "map_option fst (map_of (entries s') k) = find (\<lambda>t. t ''id'' = Some k) (rev tlist)" for k
    by (rule set_entries_last [OF a])
qed

theorem duplicate_ids_last_wins_witness:
  "well_formed plain_entry (sorts (walker_init :: torrent walker)) duplicate_list \<and>
   \<not> distinct (ids_of duplicate_list) \<and>
   set_entries plain_entry duplicate_list walker_init =
     Inr \<lparr>entries = [(PNum 7, example_torrent 7 ''y'' 2, example_torrent 7 ''y'' 2)],
          order = [PNum 7], sorts = [(''name'', False)], focus = PNum 7\<rparr> \<and>
   find (\<lambda>t. t ''id'' = Some (PNum 7)) (rev duplicate_list) = Some (example_torrent 7 ''y'' 2)"
proof -
  have wf: "well_formed plain_entry (sorts (walker_init :: torrent walker)) duplicate_list"
    by (simp add: well_formed_def sortable_by_def field_is_def duplicate_list_def
        walker_init_def example_torrent_fields plain_entry_example)
  have nd: "\<not> distinct (ids_of duplicate_list)"
    by (simp add: ids_of_def duplicate_list_def example_torrent_fields)
  from duplicate_ids_last_wins [of plain_entry walker_init duplicate_list
      "\<lparr>entries = [(PNum 7, example_torrent 7 ''y'' 2, example_torrent 7 ''y'' 2)],
          order = [PNum 7], sorts = [(''name'', False)], focus = PNum 7\<rparr>"]
    duplicate_list_result
  have "\<forall>k. map_option fst (map_of [(PNum 7, example_torrent 7 ''y'' 2, example_torrent 7 ''y'' 2)] k)
      = find (\<lambda>t. t ''id'' = Some k) (rev duplicate_list)"
    by simp
  from this [THEN spec, of "PNum 7"]
  have "find (\<lambda>t. t ''id'' = Some (PNum 7)) (rev duplicate_list) = Some (example_torrent 7 ''y'' 2)"
    by simp
  with wf nd duplicate_list_result show ?thesis by blast
qed

section \<open>The bridge\<close>

text \<open>
  Claim C4. In every run of the bridge, whatever the schedule of submissions, receptions
  and completions: the trace is serial, so no producer is started before the continuation
  of the item before it has been called; the continuations called are those of the first
  submissions, in the order of submission; as long as no exception has left the task,
  they and the pending items are all the submissions in order. A submission only appends
  the item to the channel, in every state. When no pending item can fail, letting the
  drain task run calls the continuation of every submission, in the order of submission.
\<close>

theorem bridge_fifo:
  assumes "b = run acts (bridge_init u)"
  shows "serial (trace b) \<and>
    (\<exists>m \<le> sent b. called (trace b) = [0..<m]) \<and>
    (raised b = None \<longrightarrow> called (trace b) @ pending b = [0..<sent b]) \<and>
    call_async_function w b = b\<lparr>chan := chan b @ [(sent b, w)], sent := Suc (sent b)\<rparr> \<and>
    (raised b = None \<and> list_all never_raises (pending_work b) \<longrightarrow>
       called (trace (run (Resume # drain (length (chan b))) b)) = [0..<sent b])"
proof -
  have inv: "fifo_invariant b"
    unfolding assms by (rule fifo_invariant_run [OF fifo_invariant_init])
  from fifo_invariantD(1) [OF inv] obtain sk where
    sk: "called (trace b) @ sk @ pending b = [0..<sent b]" "raised b = None \<longrightarrow> sk = []"
    by (elim exE conjE)
  have a: "serial (trace b)" by (rule fifo_invariantD(2) [OF inv])
  have "\<exists>m. m \<le> sent b \<and> called (trace b) = [0..<m]"
    using prefix_of_upt [OF sk(1)] by (intro exI [of _ "length (called (trace b))"])
  then have b: "\<exists>m \<le> sent b. called (trace b) = [0..<m]" by simp
  have c: "called (trace b) @ pending b = [0..<sent b]" if "raised b = None"
    using sk that by simp
  have d: "call_async_function w b = b\<lparr>chan := chan b @ [(sent b, w)], sent := Suc (sent b)\<rparr>"
    by (simp add: call_async_function_def)
  have e: "called (trace (run (Resume # drain (length (chan b))) b)) = [0..<sent b]"
    if "raised b = None \<and> list_all never_raises (pending_work b)"
    using drain_serves_pending [of b] c that by simp
  from a b c d e show ?thesis by blast
qed



theorem bridge_fifo_witness:
  "run example_run (bridge_init []) =
     \<lparr>chan = [(1, good_work 20), (2, good_work 30)], sent = 3, running = None, ui = [10],
      raised = None, trace = [Started 0, Called 0]\<rparr> \<and>
   serial [Started 0, Called 0] \<and>
   called [Started 0, Called 0] @ [1, 2] = [0..<3] \<and>
   list_all never_raises [good_work 20, good_work 30] \<and>
   called (trace (run (Resume # drain 2)
     \<lparr>chan = [(1, good_work 20), (2, good_work 30)], sent = 3, running = None, ui = [10],
      raised = None, trace = [Started 0, Called 0]\<rparr>)) = [0..<3]"
proof -
  let ?b = "\<lparr>chan = [(1, good_work 20), (2, good_work 30)], sent = 3, running = None,
             ui = [10 :: nat], raised = None, trace = [Started 0, Called 0]\<rparr>"
  have nr: "list_all never_raises [good_work 20, good_work 30]"
    by (simp add: never_raises_def good_work_def)
  have pw: "pending_work ?b = [good_work 20, good_work 30]" "pending ?b = [1, 2]"
    by (simp_all add: pending_work_def pending_def)
  note inst = bridge_fifo [OF example_run_result [symmetric], of "good_work 40"]
  from inst have "serial [Started 0, Called 0]" by simp
  moreover from inst pw have "called [Started 0, Called 0] @ [1, 2] = [0..<3]" by simp
  moreover have "called (trace (run (Resume # drain 2) ?b)) = [0..<3]"
  proof -
    have hyp: "raised ?b = None \<and> list_all never_raises (pending_work ?b)"
      using nr by (simp add: pending_work_def)
    have l: "length (chan ?b) = 2" "sent ?b = 3" by simp_all
    from inst [THEN conjunct2, THEN conjunct2, THEN conjunct2, THEN conjunct2, THEN mp, OF hyp]
    show ?thesis by (simp only: l)
  qed
  ultimately show ?thesis using example_run_result nr by blast
qed

text \<open>
  Claim C7 says that a failing producer or continuation does not end the drain task. It
  does: in the run \<open>failing_run\<close> the producer of the first item raises, in
  \<open>bad_callback_run\<close> its continuation does; in both the exception leaves the task and the
  second item stays in the channel, although the task is scheduled again.
\<close>

theorem exception_ends_drain_counterexample:
  "raised (run failing_run (bridge_init [])) = Some OSError \<and>
   trace (run failing_run (bridge_init [])) = [Started 0] \<and>
   map fst (chan (run failing_run (bridge_init []))) = [1] \<and>
   raised (run bad_callback_run (bridge_init [])) = Some KeyError \<and>
   trace (run bad_callback_run (bridge_init [])) = [Started 0, Called 0] \<and>
   map fst (chan (run bad_callback_run (bridge_init []))) = [1]"
  by (simp add: failing_run_def bad_callback_run_def bridge_eval)

text \<open>
  Claim C7, amended. An exception of a producer leaves \<^verbatim>\<open>handle_callbacks\<close> without a call
  of the continuation; an exception of a continuation leaves it as well, and what the
  continuation has changed before stays changed; after that no step of any run of the
  bridge starts a producer or calls a continuation.
\<close>

theorem exception_ends_drain:
  "(raised b = None \<and> running b = Some (n, w) \<and> func w = Inl e \<longrightarrow>
      raised (resume b) = Some e \<and> trace (resume b) = trace b \<and> ui (resume b) = ui b) \<and>
   (raised b = None \<and> running b = Some (n, w) \<and> func w = Inr rv \<and>
    cb w rv (ui b) = Inl (e, u) \<longrightarrow>
      raised (resume b) = Some e \<and> trace (resume b) = trace b @ [Called n] \<and>
      ui (resume b) = u) \<and>
   (raised b = Some e \<longrightarrow>
      raised (run acts b) = Some e \<and> trace (run acts b) = trace b \<and> ui (run acts b) = ui b)"
proof (intro conjI impI)
  assume a: "raised b = None \<and> running b = Some (n, w) \<and> func w = Inl e"
  then have "raised b = None" "running b = Some (n, w)" "func w = Inl e" by simp_all
  then have r: "resume b = b\<lparr>running := None, raised := Some e\<rparr>"
    by (rule resume_producer_raises)
  show "raised (resume b) = Some e" "trace (resume b) = trace b" "ui (resume b) = ui b"
    by (simp_all add: r)
next
  assume a: "raised b = None \<and> running b = Some (n, w) \<and> func w = Inr rv \<and>
    cb w rv (ui b) = Inl (e, u)"
  then have "raised b = None" "running b = Some (n, w)" "func w = Inr rv"
    "cb w rv (ui b) = Inl (e, u)" by simp_all
  then have r: "resume b =
      b\<lparr>running := None, ui := u, raised := Some e, trace := trace b @ [Called n]\<rparr>"
    by (rule resume_callback_raises)
  show "raised (resume b) = Some e" "trace (resume b) = trace b @ [Called n]"
    "ui (resume b) = u"
    by (simp_all add: r)
next
  assume a: "raised b = Some e"
  from run_after_exception [OF a, of acts]
  show "raised (run acts b) = Some e" "trace (run acts b) = trace b" "ui (run acts b) = ui b"
    by simp_all
qed

theorem exception_ends_drain_witness:
  "raised (run [Submit failing_work, Submit (good_work 20), Receive] (bridge_init [])) = None \<and>
   running (run [Submit failing_work, Submit (good_work 20), Receive] (bridge_init []))
     = Some (0, failing_work) \<and>
   func failing_work = Inl OSError \<and>
   raised (resume (run [Submit failing_work, Submit (good_work 20), Receive] (bridge_init [])))
     = Some OSError \<and>
   trace (resume (run [Submit failing_work, Submit (good_work 20), Receive] (bridge_init [])))
     = [Started 0] \<and>
   trace (run [Receive, Resume]
       (resume (run [Submit failing_work, Submit (good_work 20), Receive] (bridge_init []))))
     = [Started 0] \<and>
   running (run [Submit bad_callback_work, Receive] (bridge_init []))
     = Some (0, bad_callback_work) \<and>
   cb bad_callback_work 0 (ui (run [Submit bad_callback_work, Receive] (bridge_init [])))
     = Inl (KeyError, [0]) \<and>
   raised (resume (run [Submit bad_callback_work, Receive] (bridge_init []))) = Some KeyError \<and>
   trace (resume (run [Submit bad_callback_work, Receive] (bridge_init [])))
     = [Started 0, Called 0] \<and>
   ui (resume (run [Submit bad_callback_work, Receive] (bridge_init []))) = [0]"
proof -
  let ?b = "run [Submit failing_work, Submit (good_work 20), Receive] (bridge_init [])"
  let ?c = "run [Submit bad_callback_work, Receive] (bridge_init [])"
  have b: "raised ?b = None" "running ?b = Some (0, failing_work)" "trace ?b = [Started 0]"
    "func failing_work = Inl OSError"
    by (simp_all add: bridge_eval)
  have c: "raised ?c = None" "running ?c = Some (0, bad_callback_work)"
    "func bad_callback_work = Inr 0" "cb bad_callback_work 0 (ui ?c) = Inl (KeyError, [0])"
    "trace ?c = [Started 0]"
    by (simp_all add: bridge_eval)
  from exception_ends_drain [of ?b 0 failing_work OSError] b
  have r: "raised (resume ?b) = Some OSError" "trace (resume ?b) = [Started 0]"
    by simp_all
  from exception_ends_drain [where b = "resume ?b" and e = OSError and acts = "[Receive, Resume]"] r
  have "trace (run [Receive, Resume] (resume ?b)) = [Started 0]" by simp
  moreover from exception_ends_drain [where b = ?c and n = 0 and w = bad_callback_work
      and e = KeyError and rv = 0 and u = "[0]"] c
  have "raised (resume ?c) = Some KeyError" "trace (resume ?c) = [Started 0, Called 0]"
    "ui (resume ?c) = [0]"
    by simp_all
  ultimately show ?thesis using b c r by blast
qed

section \<open>The polling loop\<close>

text \<open>
  Claim C5. A round in which one of the three remote calls raises leaves the whole
  console state as it was, in particular the entries, the order and the focus of the
  walker; the exception does not leave the loop, which goes on with the next round.
\<close>

theorem failed_round_leaves_state:
  "isl (torrents rd) \<or> isl (session rd) \<or> isl (stats rd) \<longrightarrow>
     update_data_round ops rd c = Inr c \<and>
     update_data ops (rd # rds) c = update_data ops rds c"
proof
  assume "isl (torrents rd) \<or> isl (session rd) \<or> isl (stats rd)"
  from fetch_fails [OF this] obtain e where "fetch rd = Inl e" by blast
  then have "update_data_round ops rd c = Inr c" by (simp add: update_data_round_def)
  then show "update_data_round ops rd c = Inr c \<and>
     update_data ops (rd # rds) c = update_data ops rds c"
    by simp
qed

theorem failed_round_leaves_state_witness:
  "isl (session session_fails) \<and>
   update_data_round example_rendering session_fails example_console = Inr example_console \<and>
   entries (data example_console) = entries example_walker \<and>
   order (data example_console) = [PNum 2, PNum 3, PNum 1] \<and>
   focus (data example_console) = PNum 2 \<and>
   update_data example_rendering [session_fails, connection_refused] example_console
     = Inr example_console"
proof -
  have a: "isl (session session_fails)" "isl (torrents connection_refused)"
    by (simp_all add: session_fails_def connection_refused_def)
  have d: "entries (data example_console) = entries example_walker"
    "order (data example_console) = [PNum 2, PNum 3, PNum 1]"
    "focus (data example_console) = PNum 2"
    by (simp_all add: example_console_def example_walker_def)
  from failed_round_leaves_state [of session_fails example_rendering example_console
      "[connection_refused]"] a(1)
  have 1: "update_data_round example_rendering session_fails example_console = Inr example_console"
    and 2: "update_data example_rendering [session_fails, connection_refused] example_console
      = update_data example_rendering [connection_refused] example_console"
    by simp_all
  from failed_round_leaves_state [of connection_refused example_rendering example_console "[]"] a(2)
  have "update_data example_rendering [connection_refused] example_console = Inr example_console"
    by simp
  with 1 2 a d show ?thesis by simp
qed

text \<open>
  Claim C6 says that after a failed round the next attempt begins no sooner than the
  poll period after the start of the failed one. In the code \<^verbatim>\<open>continue\<close> skips
  \<^verbatim>\<open>trio.sleep_until(it + 3.0)\<close>: when \<^verbatim>\<open>get_torrents\<close> raises a hundredth of a second after
  the round has started at 0, the next attempt begins at 0.01, before 3.
\<close>

theorem failed_round_retries_at_once:
  "fetch connection_refused = Inl OSError \<and>
   next_attempt connection_refused = 1 / 100 \<and>
   next_attempt connection_refused < started connection_refused + poll_period"
  by (simp add: next_attempt_def fetch_def connection_refused_def poll_period_def)

section \<open>Staleness display\<close>



end
